theory Spec2Isabelle
  imports Complex_Main "HOL-Library.Word" "HOL-Library.List_Lexorder" "HOL-Library.Monad_Syntax"
begin

unbundle bit_operations_syntax

section \<open>JavaScript strings\<close>

text \<open>
  A JavaScript string is a sequence of UTF-16 code units: \<open>length\<close> counts code units and
  \<open>charCodeAt\<close> returns one of them, a number below 65536. \<open>JS\<close> turns an ASCII literal
  into such a string.
\<close>

type_synonym code_unit = "16 word"
type_synonym jstring = "code_unit list"

definition JS :: "string \<Rightarrow> jstring" where
  "JS s = map of_char s"

text \<open>
  \<open>Number.prototype.toString(16)\<close> and the decimal digits of a non-negative integer:
  no leading zeros, lowercase letters. \<open>padStart\<close> is \<open>String.prototype.padStart\<close> with a
  filler of one code unit.
\<close>

definition hexDigit :: "nat \<Rightarrow> code_unit" where
  "hexDigit d = JS ''0123456789abcdef'' ! d"

fun toString16 :: "nat \<Rightarrow> jstring" where
  "toString16 n = (if n < 16 then [hexDigit n] else toString16 (n div 16) @ [hexDigit (n mod 16)])"

fun toString10 :: "nat \<Rightarrow> jstring" where
  "toString10 n = (if n < 10 then [hexDigit n] else toString10 (n div 10) @ [hexDigit (n mod 10)])"

definition padStart :: "nat \<Rightarrow> code_unit \<Rightarrow> jstring \<Rightarrow> jstring" where
  "padStart n c s = replicate (n - length s) c @ s"

definition isLowerHex :: "code_unit \<Rightarrow> bool" where
  "isLowerHex c \<longleftrightarrow> c \<in> set (JS ''0123456789abcdef'')"

section \<open>JavaScript values\<close>

text \<open>
  A number is an IEEE double. A finite double is named here by a decimal \<open>m * 10 ^ e\<close>
  (\<open>Finite m e\<close>), the form in which \<open>Number::toString\<close> prints it; the three non-finite
  values are kept apart because \<open>JSON.stringify\<close> prints them as \<open>null\<close>.
\<close>

datatype number = NaN | PosInfinity | NegInfinity | Finite int int

fun isFinite :: "number \<Rightarrow> bool" where
  "isFinite (Finite m e) = True"
| "isFinite _ = False"

fun stripZeros :: "nat \<Rightarrow> int \<Rightarrow> nat \<times> int" where
  "stripZeros m e = (if m \<noteq> 0 \<and> m mod 10 = 0 then stripZeros (m div 10) (e + 1) else (m, e))"

text \<open>
  \<open>Number::toString\<close> of ECMAScript: with \<open>k\<close> significant digits and the decimal point
  after the \<open>n\<close>-th of them, positional notation for \<open>-6 < n \<le> 21\<close> and exponential
  notation otherwise.
\<close>

fun Number_toString :: "number \<Rightarrow> jstring" where
  "Number_toString NaN = JS ''NaN''"
| "Number_toString PosInfinity = JS ''Infinity''"
| "Number_toString NegInfinity = JS ''-Infinity''"
| "Number_toString (Finite m e) =
    (if m = 0 then JS ''0''
     else let (s, e') = stripZeros (nat \<bar>m\<bar>) e;
              ds = toString10 s;
              k = int (length ds);
              n = k + e'
          in (if m < 0 then JS ''-'' else []) @
             (if k \<le> n \<and> n \<le> 21 then ds @ replicate (nat (n - k)) (of_char CHR ''0'')
              else if 0 < n \<and> n \<le> 21 then take (nat n) ds @ JS ''.'' @ drop (nat n) ds
              else if -6 < n \<and> n \<le> 0 then JS ''0.'' @ replicate (nat (- n)) (of_char CHR ''0'') @ ds
              else (if k = 1 then ds else take 1 ds @ JS ''.'' @ drop 1 ds) @ JS ''e'' @
                   (if n - 1 < 0 then JS ''-'' else JS ''+'') @ toString10 (nat \<bar>n - 1\<bar>)))"

text \<open>
  The values \<open>canonicalize\<close> and \<open>stableHash\<close> are applied to: \<open>undefined\<close>, \<open>null\<close>,
  booleans, numbers, strings, arrays and plain objects. An object is the list of its own
  properties in enumeration order.
\<close>

datatype json = JUndefined | JNull | JBool bool | JNum number | JStr jstring
  | JArr "json list" | JObj "(jstring \<times> json) list"

type_synonym jsobject = "(jstring \<times> json) list"

subsection \<open>Property order\<close>

text \<open>
  An object enumerates its array-index keys first (the canonical decimal strings of the
  integers up to \<open>2^32 - 2\<close>), in ascending numeric order, and then its other string keys in
  the order of their creation. \<open>setProperty\<close> is the assignment \<open>obj[k] = v\<close> under that rule,
  \<open>getProperty\<close> is \<open>obj[k]\<close>.
\<close>

definition isDigit :: "code_unit \<Rightarrow> bool" where
  "isDigit c \<longleftrightarrow> 0x30 \<le> c \<and> c \<le> 0x39"

fun indexValue :: "jstring \<Rightarrow> nat" where
  "indexValue s = foldl (\<lambda>n c. 10 * n + (unat c - 48)) 0 s"

definition isArrayIndex :: "jstring \<Rightarrow> bool" where
  "isArrayIndex k \<longleftrightarrow> k \<noteq> [] \<and> list_all isDigit k \<and> (k = [0x30] \<or> hd k \<noteq> 0x30)
     \<and> length k \<le> 10 \<and> indexValue k \<le> 4294967294"

definition precedes :: "jstring \<Rightarrow> jstring \<Rightarrow> bool" where
  "precedes k k' \<longleftrightarrow> isArrayIndex k \<and> (isArrayIndex k' \<longrightarrow> indexValue k < indexValue k')"

fun getProperty :: "jsobject \<Rightarrow> jstring \<Rightarrow> json" where
  "getProperty [] k = JUndefined"
| "getProperty ((k', v) # ps) k = (if k' = k then v else getProperty ps k)"

fun updateProperty :: "jsobject \<Rightarrow> jstring \<Rightarrow> json \<Rightarrow> jsobject" where
  "updateProperty [] k v = []"
| "updateProperty ((k', v') # ps) k v =
    (if k' = k then (k, v) # ps else (k', v') # updateProperty ps k v)"

fun insertProperty :: "jsobject \<Rightarrow> jstring \<Rightarrow> json \<Rightarrow> jsobject" where
  "insertProperty [] k v = [(k, v)]"
| "insertProperty ((k', v') # ps) k v =
    (if precedes k k' then (k, v) # (k', v') # ps else (k', v') # insertProperty ps k v)"

definition setProperty :: "jsobject \<Rightarrow> jstring \<Rightarrow> json \<Rightarrow> jsobject" where
  "setProperty ps k v =
    (if k \<in> set (map fst ps) then updateProperty ps k v else insertProperty ps k v)"

section \<open>Canonical encoder (hash.ts)\<close>

text \<open>
  \<open>sorted[k] = v\<close> on the object \<open>sorted\<close>, which \<open>replacer\<close> creates with \<open>{}\<close>, is an
  ordinary assignment. For every key but \<open>__proto__\<close> it creates or updates an own property.
  For \<open>__proto__\<close> it reaches the accessor that \<open>sorted\<close> inherits from
  \<open>Object.prototype\<close>: the setter replaces the prototype of \<open>sorted\<close> when \<open>v\<close> is an object
  or \<open>null\<close> and does nothing otherwise, and in neither case is a property created. The
  prototype is not represented: \<open>JSON.stringify\<close> reads own properties only, and the values
  at hand have writable data properties only, so that it has no part in a later assignment.
\<close>

definition assignProperty :: "jsobject \<Rightarrow> jstring \<Rightarrow> json \<Rightarrow> jsobject" where
  "assignProperty obj k v = (if k = JS ''__proto__'' then obj else setProperty obj k v)"

text \<open>
  \<open>replacer\<close> returns every value that is falsy, not an object, or an array as it is; for
  an object it builds \<open>sorted\<close> by assigning the properties in the order of
  \<open>Object.keys(val).sort()\<close>. The default \<open>sort\<close> compares strings by their code units,
  which is the lexicographic order of lists of words.
\<close>

definition replacer :: "json \<Rightarrow> json" where
  "replacer val = (case val of
      JObj ps \<Rightarrow> JObj (fold (\<lambda>k sorted. assignProperty sorted k (getProperty ps k)) (sort (map fst ps)) [])
    | _ \<Rightarrow> val)"

text \<open>\<open>QuoteJSONString\<close> of ECMAScript: the escapes of \<open>JSON.stringify\<close> for a string.\<close>

definition isHighSurrogate :: "code_unit \<Rightarrow> bool" where
  "isHighSurrogate c \<longleftrightarrow> 0xD800 \<le> c \<and> c \<le> 0xDBFF"

definition isLowSurrogate :: "code_unit \<Rightarrow> bool" where
  "isLowSurrogate c \<longleftrightarrow> 0xDC00 \<le> c \<and> c \<le> 0xDFFF"

definition unicodeEscape :: "code_unit \<Rightarrow> jstring" where
  "unicodeEscape c = [0x5C, 0x75] @ padStart 4 (of_char CHR ''0'') (toString16 (unat c))"

definition quoteUnit :: "code_unit \<Rightarrow> jstring" where
  "quoteUnit c =
    (if c = 0x08 then [0x5C, 0x62] else if c = 0x09 then [0x5C, 0x74]
     else if c = 0x0A then [0x5C, 0x6E] else if c = 0x0C then [0x5C, 0x66]
     else if c = 0x0D then [0x5C, 0x72] else if c = 0x22 then [0x5C, 0x22]
     else if c = 0x5C then [0x5C, 0x5C]
     else if c < 0x20 \<or> isHighSurrogate c \<or> isLowSurrogate c then unicodeEscape c
     else [c])"

fun quoteUnits :: "jstring \<Rightarrow> jstring" where
  "quoteUnits [] = []"
| "quoteUnits [c] = quoteUnit c"
| "quoteUnits (c # d # ds) =
    (if isHighSurrogate c \<and> isLowSurrogate d then c # d # quoteUnits ds
     else quoteUnit c @ quoteUnits (d # ds))"

definition QuoteJSONString :: "jstring \<Rightarrow> jstring" where
  "QuoteJSONString s = [0x22] @ quoteUnits s @ [0x22]"

fun join :: "jstring list \<Rightarrow> jstring" where
  "join [] = []"
| "join [x] = x"
| "join (x # y # ys) = x @ JS '','' @ join (y # ys)"

text \<open>
  The values of the object \<open>replacer\<close> builds are values of the object it was given, which
  is why the serialisation below terminates.
\<close>

lemma fold_assignProperty:
  "fold (\<lambda>k sorted. assignProperty sorted k (f k)) ks acc
     = fold (\<lambda>k sorted. setProperty sorted k (f k)) (filter (\<lambda>k. k \<noteq> JS ''__proto__'') ks) acc"
  by (induction ks arbitrary: acc) (simp_all add: assignProperty_def)

lemma replacer_JObj:
  "replacer (JObj ps) = JObj (fold (\<lambda>k sorted. setProperty sorted k (getProperty ps k))
     (filter (\<lambda>k. k \<noteq> JS ''__proto__'') (sort (map fst ps))) [])"
  by (simp add: replacer_def fold_assignProperty)

lemma updateProperty_values:
  "(j, x) \<in> set (updateProperty ps k v) \<Longrightarrow> x = v \<or> (\<exists>i. (i, x) \<in> set ps)"
  by (induction ps) (auto split: if_splits)

lemma insertProperty_values:
  "(j, x) \<in> set (insertProperty ps k v) \<Longrightarrow> x = v \<or> (\<exists>i. (i, x) \<in> set ps)"
  by (induction ps) (auto split: if_splits)

lemma setProperty_values:
  "(j, x) \<in> set (setProperty ps k v) \<Longrightarrow> x = v \<or> (\<exists>i. (i, x) \<in> set ps)"
  using updateProperty_values [of j x ps k v] insertProperty_values [of j x ps k v]
  by (simp add: setProperty_def split: if_splits)

lemma getProperty_values:
  "getProperty ps k \<noteq> JUndefined \<Longrightarrow> \<exists>i. (i, getProperty ps k) \<in> set ps"
proof (induction ps)
  case Nil
  then show ?case by simp
next
  case (Cons p ps)
  obtain k' v where p: "p = (k', v)" by (cases p)
  show ?case
  proof (cases "k' = k")
    case True
    then show ?thesis using p by auto
  next
    case False
    with Cons p obtain i where "(i, getProperty ps k) \<in> set ps" by auto
    then show ?thesis using False p by auto
  qed
qed

lemma fold_setProperty_values:
  "(j, x) \<in> set (fold (\<lambda>k sorted. setProperty sorted k (getProperty ps k)) ks acc)
     \<Longrightarrow> x = JUndefined \<or> (\<exists>i. (i, x) \<in> set ps) \<or> (\<exists>i. (i, x) \<in> set acc)"
proof (induction ks arbitrary: acc)
  case Nil
  then show ?case by auto
next
  case (Cons k ks)
  from Cons.prems have "(j, x) \<in> set (fold (\<lambda>k sorted. setProperty sorted k (getProperty ps k)) ks
      (setProperty acc k (getProperty ps k)))" by simp
  from Cons.IH [OF this] consider "x = JUndefined" | "\<exists>i. (i, x) \<in> set ps"
    | "\<exists>i. (i, x) \<in> set (setProperty acc k (getProperty ps k))" by blast
  then show ?case
  proof cases
    case 3
    then obtain j' where "(j', x) \<in> set (setProperty acc k (getProperty ps k))" by blast
    from setProperty_values [OF this] getProperty_values [of ps k] show ?thesis by auto
  qed auto
qed

lemma size_member: "(k, x) \<in> set ps \<Longrightarrow> size x < size (JObj ps)"
  by (induction ps) auto

lemma size_element: "x \<in> set xs \<Longrightarrow> size x < size (JArr xs)"
  by (induction xs) auto

lemma replacer_JArr: "replacer val = JArr xs \<Longrightarrow> val = JArr xs"
  by (auto simp: replacer_def split: json.splits)

lemma replacer_JObj_size:
  assumes "replacer val = JObj ps" and "(k, x) \<in> set ps"
  shows "size x < size val"
proof -
  from assms(1) obtain ps0 where v: "val = JObj ps0"
    by (cases val) (simp_all add: replacer_def)
  with assms(1) have ps: "ps = fold (\<lambda>k sorted. setProperty sorted k (getProperty ps0 k))
      (filter (\<lambda>k. k \<noteq> JS ''__proto__'') (sort (map fst ps0))) []"
    by (simp add: replacer_JObj)
  from assms(2) fold_setProperty_values [of k x ps0 "filter (\<lambda>k. k \<noteq> JS ''__proto__'') (sort (map fst ps0))" "[]"] ps
  have "x = JUndefined \<or> (\<exists>i. (i, x) \<in> set ps0)" by auto
  then show ?thesis
  proof
    assume "x = JUndefined" then show ?thesis by (simp add: v)
  next
    assume "\<exists>i. (i, x) \<in> set ps0"
    then obtain k' where "(k', x) \<in> set ps0" by blast
    then show ?thesis using size_member v by blast
  qed
qed

text \<open>
  \<open>JSON.stringify(value, replacer)\<close> with no indentation. \<open>SerializeJSONProperty\<close> first
  passes the value through \<open>replacer\<close>; \<open>undefined\<close> has no serialisation (\<open>None\<close>), a
  non-finite number is \<open>null\<close>, an array element without serialisation is \<open>null\<close>, and an
  object member without serialisation is left out.
\<close>

function serializeJSONProperty :: "json \<Rightarrow> jstring option" where
  "serializeJSONProperty val = (case replacer val of
      JUndefined \<Rightarrow> None
    | JNull \<Rightarrow> Some (JS ''null'')
    | JBool b \<Rightarrow> Some (if b then JS ''true'' else JS ''false'')
    | JNum n \<Rightarrow> Some (if isFinite n then Number_toString n else JS ''null'')
    | JStr s \<Rightarrow> Some (QuoteJSONString s)
    | JArr xs \<Rightarrow> Some (JS ''['' @
        join (map (\<lambda>x. case serializeJSONProperty x of None \<Rightarrow> JS ''null'' | Some s \<Rightarrow> s) xs)
        @ JS '']'')
    | JObj ps \<Rightarrow> Some (JS ''{'' @
        join (concat (map (\<lambda>(k, x). case serializeJSONProperty x of None \<Rightarrow> []
                                    | Some s \<Rightarrow> [QuoteJSONString k @ JS '':'' @ s]) ps))
        @ JS ''}''))"
  by pat_completeness auto
termination
proof (relation "measure size")
  show "wf (measure size)" by simp
next
  fix val xs x
  assume "replacer val = JArr xs" "x \<in> set xs"
  then show "(x, val) \<in> measure size"
    using replacer_JArr size_element by fastforce
next
  fix val ps p k x
  assume "replacer val = JObj ps" "p \<in> set ps" "(k, x) = p"
  then show "(x, val) \<in> measure size"
    using replacer_JObj_size by fastforce
qed

text \<open>\<open>canonicalize\<close> returns \<open>None\<close> where \<open>JSON.stringify\<close> returns \<open>undefined\<close>.\<close>

definition canonicalize :: "json \<Rightarrow> jstring option" where
  "canonicalize val = serializeJSONProperty val"

subsection \<open>Members and permuted keys\<close>

text \<open>
  The members an object serialisation keeps: the properties whose value \<open>g\<close> maps to
  something, in their order.
\<close>

definition members :: "(json \<Rightarrow> 'a option) \<Rightarrow> jsobject \<Rightarrow> (jstring \<times> 'a) list" where
  "members g ps = concat (map (\<lambda>(k, x). case g x of None \<Rightarrow> [] | Some y \<Rightarrow> [(k, y)]) ps)"

text \<open>
  Two values are equal up to a permutation of record keys at every depth: they are the
  same value, or arrays whose elements are so related in order, or records with the same
  keys whose values under each key are so related. A record has no key twice.
\<close>

inductive keyPermuted :: "json \<Rightarrow> json \<Rightarrow> bool" where
  same: "keyPermuted v v"
| arrays: "list_all2 keyPermuted xs ys \<Longrightarrow> keyPermuted (JArr xs) (JArr ys)"
| objects: "distinct (map fst ps) \<Longrightarrow> distinct (map fst qs) \<Longrightarrow> set (map fst ps) = set (map fst qs)
    \<Longrightarrow> (\<forall>k \<in> set (map fst ps). keyPermuted (getProperty ps k) (getProperty qs k))
    \<Longrightarrow> keyPermuted (JObj ps) (JObj qs)"

text \<open>The members of a record that its canonical text holds: key and text of the value.\<close>

definition emittedMembers :: "jsobject \<Rightarrow> (jstring \<times> jstring) list" where
  "emittedMembers ps = (case replacer (JObj ps) of
      JObj obj \<Rightarrow> members serializeJSONProperty obj | _ \<Rightarrow> [])"

section \<open>Stable hash (hash.ts)\<close>

text \<open>
  \<open>Math.imul\<close> is the product modulo \<open>2^32\<close>; \<open>^\<close> and \<open>>>>\<close> work on the 32-bit values
  of their operands. \<open>hashLanes\<close> is the body of \<open>stableHash\<close> up to the two final
  accumulators, \<open>hashString\<close> prints them; \<open>stableHash\<close> hashes a string as it is and any
  other value through \<open>canonicalize\<close>. Reading \<open>length\<close> of \<open>undefined\<close> throws a
  TypeError: \<open>None\<close>.
\<close>

definition imul :: "32 word \<Rightarrow> 32 word \<Rightarrow> 32 word" where
  "imul a b = a * b"

definition hashStep :: "code_unit \<Rightarrow> 32 word \<times> 32 word \<Rightarrow> 32 word \<times> 32 word" where
  "hashStep ch h = (case h of (h1, h2) \<Rightarrow>
     (imul (h1 XOR ucast ch) 2654435761, imul (h2 XOR ucast ch) 1597334677))"

definition hashLanes :: "jstring \<Rightarrow> 32 word \<times> 32 word" where
  "hashLanes json =
    (let h1 = 0xdeadbeef XOR of_nat (length json);
         h2 = 0x41c6ce57 XOR of_nat (length json);
         (h1, h2) = fold hashStep json (h1, h2);
         h1 = imul (h1 XOR drop_bit 16 h1) 2246822507 XOR imul (h2 XOR drop_bit 13 h2) 3266489909;
         h2 = imul (h2 XOR drop_bit 16 h2) 2246822507 XOR imul (h1 XOR drop_bit 13 h1) 3266489909
     in (h1, h2))"

definition hashString :: "jstring \<Rightarrow> jstring" where
  "hashString json =
    (let (h1, h2) = hashLanes json;
         hi = padStart 8 (of_char CHR ''0'') (toString16 (unat h1));
         lo = padStart 8 (of_char CHR ''0'') (toString16 (unat h2))
     in hi @ lo)"

definition stableHash :: "json \<Rightarrow> jstring option" where
  "stableHash val =
    (case (case val of JStr s \<Rightarrow> Some s | _ \<Rightarrow> canonicalize val) of
       None \<Rightarrow> None
     | Some json \<Rightarrow> Some (hashString json))"

section \<open>Signals (types.ts)\<close>

text \<open>
  The signal bag and the records it holds. An optional field is an \<open>option\<close>; a field
  typed \<open>string[] | null\<close> is \<open>None\<close> for \<open>null\<close>. \<open>computeAnchor\<close> takes a
  \<open>Partial<BrowserSignals>\<close>, so \<open>userAgent\<close> is optional too. \<open>otherProperties\<close> stands
  for whatever else the caller's object carries (a platform string, a device pixel ratio,
  viewport dimensions): the interface has no such field.
\<close>

record WebGlExtensionsPayload =
  contextAttributes :: "jstring list"
  parameters :: "jstring list"
  shaderPrecisions :: "jstring list"
  extensions :: "jstring list option"
  extensionParameters :: "jstring list"
  unsupportedExtensions :: "jstring list"

record WebGpuInfo =
  supported :: bool
  isFallbackAdapter :: "bool option"
  vendor :: "jstring option"
  architecture :: "jstring option"
  device :: "jstring option"

record EmeInfo =
  widevineSupported :: "bool option"

record PerformanceTimingInfo =
  precision :: number
  baseline :: number

record WebGlSignals =
  version :: "jstring option"
  vendor :: "jstring option"
  renderer :: "jstring option"
  vendorUnmasked :: "jstring option"
  rendererUnmasked :: "jstring option"
  shadingLanguageVersion :: "jstring option"
  extensions :: "jstring list option"

text \<open>
  \<open>audioFingerprint\<close> is a number or the lazy function the audio source returns; of the
  function only its being one matters (\<open>typeof\<close> is not \<open>'number'\<close>).
\<close>

datatype audio_signal = AudioNumber number | AudioThunk

record BrowserSignals =
  userAgent :: "jstring option"
  hardwareConcurrency :: "number option"
  deviceMemory :: "number option"
  webgl :: "WebGlSignals option"
  webgExtensions :: "WebGlExtensionsPayload option"
  audioFingerprint :: "audio_signal option"
  mathFingerprint :: "(jstring \<times> number) list option"
  webgpu :: "WebGpuInfo option"
  eme :: "EmeInfo option"
  performanceTiming :: "PerformanceTimingInfo option"
  otherProperties :: "(jstring \<times> json) list"

section \<open>Anchor (anchor.ts)\<close>

text \<open>
  \<open>normalizeString\<close> of hash.ts: \<open>trim\<close> removes the white space and line terminators of
  ECMAScript at both ends; \<open>String.prototype.toLowerCase\<close> follows the Unicode case
  mappings and is a parameter here.
\<close>

definition isWhiteSpace :: "code_unit \<Rightarrow> bool" where
  "isWhiteSpace c \<longleftrightarrow> c \<in> set [0x09, 0x0A, 0x0B, 0x0C, 0x0D, 0x20, 0xA0, 0x1680, 0x2028, 0x2029,
     0x202F, 0x205F, 0x3000, 0xFEFF] \<or> (0x2000 \<le> c \<and> c \<le> 0x200A)"

definition trim :: "jstring \<Rightarrow> jstring" where
  "trim s = rev (dropWhile isWhiteSpace (rev (dropWhile isWhiteSpace s)))"

definition normalizeString :: "(jstring \<Rightarrow> jstring) \<Rightarrow> jstring option \<Rightarrow> jstring option" where
  "normalizeString toLowerCase input =
    (case input of
       None \<Rightarrow> None
     | Some s \<Rightarrow>
        if s = [] then None
        else let trimmed = toLowerCase (trim s) in if trimmed = [] then None else Some trimmed)"

text \<open>
  \<open>a || b\<close> on optional strings (the empty string is falsy); a field that is \<open>undefined\<close>
  when its source is absent; \<open>stableHash\<close> of an array of strings, as a string value.
\<close>

definition orElse :: "jstring option \<Rightarrow> jstring option \<Rightarrow> jstring option" where
  "orElse a b = (case a of None \<Rightarrow> b | Some s \<Rightarrow> if s = [] then b else a)"

definition optional :: "('a \<Rightarrow> json) \<Rightarrow> 'a option \<Rightarrow> json" where
  "optional f x = (case x of None \<Rightarrow> JUndefined | Some y \<Rightarrow> f y)"

definition hashOfStrings :: "jstring list \<Rightarrow> json option" where
  "hashOfStrings xs = map_option JStr (stableHash (JArr (map JStr xs)))"

text \<open>
  The locals of \<open>computeAnchor\<close> and its object literal \<open>anchor\<close>, the properties in the
  order of the literal. \<open>sort()\<close> on \<open>webgParams\<close> and \<open>webgShaderPrec\<close> reorders the
  caller's arrays in place; nothing reads them afterwards. Each \<open>stableHash\<close> may throw
  (\<open>None\<close>), which ends the function.
\<close>

definition anchorObject :: "(jstring \<Rightarrow> jstring) \<Rightarrow> BrowserSignals \<Rightarrow> json option" where
  "anchorObject toLowerCase b = do {
     let vendor = normalizeString toLowerCase
           (orElse (Option.bind (webgl b) vendorUnmasked) (Option.bind (webgl b) WebGlSignals.vendor));
     let renderer = normalizeString toLowerCase
           (orElse (Option.bind (webgl b) rendererUnmasked) (Option.bind (webgl b) WebGlSignals.renderer));
     let gpu = (if vendor \<noteq> None \<or> renderer \<noteq> None
                then JObj [(JS ''vendor'', optional JStr vendor), (JS ''renderer'', optional JStr renderer)]
                else JUndefined);
     let webglExtApp = map_option sort (Option.bind (webgl b) WebGlSignals.extensions);
     let webgExt = Option.bind (webgExtensions b) WebGlExtensionsPayload.extensions;
     let webgParams = map_option parameters (webgExtensions b);
     let webgShaderPrec = map_option shaderPrecisions (webgExtensions b);
     let hw = optional JNum (hardwareConcurrency b);
     let mem = optional JNum (deviceMemory b);
     let audio = (case audioFingerprint b of Some (AudioNumber n) \<Rightarrow> JNum n | _ \<Rightarrow> JUndefined);
     let math = optional (\<lambda>m. JObj (map (\<lambda>(k, n). (k, JNum n)) m)) (mathFingerprint b);
     let webgpu = optional (\<lambda>g. JObj [(JS ''supported'', JBool (supported g)),
           (JS ''isFallbackAdapter'', JBool (isFallbackAdapter g = Some True))]) (webgpu b);
     let eme = (case Option.bind (eme b) widevineSupported of
                  Some w \<Rightarrow> JNum (Finite (if w then 1 else 0) 0) | None \<Rightarrow> JUndefined);
     pt \<leftarrow> (case performanceTiming b of
              None \<Rightarrow> Some JUndefined
            | Some t \<Rightarrow> map_option JStr (stableHash
                (JObj [(JS ''precision'', JNum (precision t)), (JS ''baseline'', JNum (baseline t))])));
     ext \<leftarrow> (case webglExtApp of None \<Rightarrow> Some JUndefined | Some xs \<Rightarrow> hashOfStrings xs);
     xExt \<leftarrow> (case webgExt of
                None \<Rightarrow> Some JUndefined
              | Some xs \<Rightarrow> if xs = [] then Some JUndefined
                          else hashOfStrings (sort (rev (remdups (rev xs)))));
     params \<leftarrow> (case webgParams of
                  None \<Rightarrow> Some JUndefined
                | Some xs \<Rightarrow> if xs = [] then Some JUndefined else hashOfStrings (sort xs));
     shader \<leftarrow> (case webgShaderPrec of
                  None \<Rightarrow> Some JUndefined
                | Some xs \<Rightarrow> if xs = [] then Some JUndefined else hashOfStrings (sort xs));
     Some (JObj [
       (JS ''gpu'', gpu),
       (JS ''webgl'', JObj [(JS ''ext'', ext), (JS ''xExt'', xExt), (JS ''params'', params),
                           (JS ''shader'', shader)]),
       (JS ''hw'', hw),
       (JS ''mem'', mem),
       (JS ''audio'', audio),
       (JS ''math'', math),
       (JS ''webgpu'', webgpu),
       (JS ''eme'', eme),
       (JS ''pt'', pt)])
   }"

text \<open>
  \<open>JSON.parse(canonicalize(anchor))\<close>: \<open>parseStringified val\<close> is the value \<open>JSON.parse\<close>
  builds from the text \<open>canonicalize\<close> produces for \<open>val\<close>. It follows the serialisation
  case by case: a non-finite number comes back as \<open>null\<close>, an array element without
  serialisation as \<open>null\<close>, an object member without serialisation not at all, and the
  members that are written are created in the order of the text. \<open>JSON.parse(undefined)\<close>
  throws a SyntaxError (\<open>None\<close>).
\<close>

function parseStringified :: "json \<Rightarrow> json option" where
  "parseStringified val = (case replacer val of
      JUndefined \<Rightarrow> None
    | JNull \<Rightarrow> Some JNull
    | JBool b \<Rightarrow> Some (JBool b)
    | JNum n \<Rightarrow> Some (if isFinite n then JNum n else JNull)
    | JStr s \<Rightarrow> Some (JStr s)
    | JArr xs \<Rightarrow> Some (JArr (map (\<lambda>x. case parseStringified x of None \<Rightarrow> JNull | Some y \<Rightarrow> y) xs))
    | JObj ps \<Rightarrow> Some (JObj (fold (\<lambda>(k, y) obj. setProperty obj k y)
        (concat (map (\<lambda>(k, x). case parseStringified x of None \<Rightarrow> [] | Some y \<Rightarrow> [(k, y)]) ps)) [])))"
  by pat_completeness auto
termination
proof (relation "measure size")
  show "wf (measure size)" by simp
next
  fix val xs x
  assume "replacer val = JArr xs" "x \<in> set xs"
  then show "(x, val) \<in> measure size"
    using replacer_JArr size_element by fastforce
next
  fix val ps p k x
  assume "replacer val = JObj ps" "p \<in> set ps" "(k, x) = p"
  then show "(x, val) \<in> measure size"
    using replacer_JObj_size by fastforce
qed

definition computeAnchor :: "(jstring \<Rightarrow> jstring) \<Rightarrow> BrowserSignals \<Rightarrow> json option" where
  "computeAnchor toLowerCase b = do {
     anchor \<leftarrow> anchorObject toLowerCase b;
     parseStringified anchor
   }"

text \<open>
  \<open>computeVisitorId\<close>: \<open>stableHash\<close> receives the canonical text, a string, or
  \<open>undefined\<close> if there were none; \<open>slice(0, 22)\<close> keeps at most the first 22 code units.
\<close>

record VisitorIdResult =
  anchor :: json
  visitorId :: jstring

definition computeVisitorId :: "(jstring \<Rightarrow> jstring) \<Rightarrow> BrowserSignals \<Rightarrow> VisitorIdResult option" where
  "computeVisitorId toLowerCase signals = do {
     anchor \<leftarrow> computeAnchor toLowerCase signals;
     anchorHash \<leftarrow> stableHash (case canonicalize anchor of None \<Rightarrow> JUndefined | Some s \<Rightarrow> JStr s);
     let visitorId = take 22 anchorHash;
     Some \<lparr>anchor = anchor, visitorId = visitorId\<rparr>
   }"

text \<open>The bag with no signal at all.\<close>

definition emptySignals :: BrowserSignals where
  "emptySignals = \<lparr>userAgent = None, hardwareConcurrency = None, deviceMemory = None, webgl = None,
     webgExtensions = None, audioFingerprint = None, mathFingerprint = None, webgpu = None,
     eme = None, performanceTiming = None, otherProperties = []\<rparr>"

section \<open>Audio source (sources/audio.ts)\<close>

datatype SpecialFingerprint = KnownForSuspending | NotSupported | Timeout | KnownForAntifingerprinting

fun sentinel :: "SpecialFingerprint \<Rightarrow> int" where
  "sentinel KnownForSuspending = -1"
| "sentinel NotSupported = -2"
| "sentinel Timeout = -3"
| "sentinel KnownForAntifingerprinting = -4"

subsection \<open>Browser classification\<close>

text \<open>
  What the source reads of the page it runs in: whether \<open>window\<close> has an
  \<open>OfflineAudioContext\<close> or a \<open>webkitOfflineAudioContext\<close>, and the answers of the
  browser checks of utils/browser, which is not part of the sources at hand.
\<close>

record environment =
  hasOfflineAudioContext :: bool
  hasWebkitOfflineAudioContext :: bool
  isWebKit :: bool
  isDesktopWebKit :: bool
  isWebKit606OrNewer :: bool
  isWebKit616OrNewer :: bool
  isSafariWebKit :: bool
  isChromium :: bool
  isSamsungInternet :: bool
  isChromium122OrNewer :: bool

definition doesBrowserSuspendAudioContext :: "environment \<Rightarrow> bool" where
  "doesBrowserSuspendAudioContext env \<longleftrightarrow>
     isWebKit env \<and> \<not> isDesktopWebKit env \<and> \<not> isWebKit606OrNewer env"

definition isSafari17OrNewer :: "environment \<Rightarrow> bool" where
  "isSafari17OrNewer env \<longleftrightarrow> isWebKit env \<and> isWebKit616OrNewer env \<and> isSafariWebKit env"

definition doesBrowserPerformAntifingerprinting :: "environment \<Rightarrow> bool" where
  "doesBrowserPerformAntifingerprinting env \<longleftrightarrow>
     isChromium env \<and> isSamsungInternet env \<and> isChromium122OrNewer env"

subsection \<open>Numbers in arithmetic\<close>

text \<open>
  The samples of a rendered buffer and the sums \<open>getHash\<close> forms are IEEE 754 binary64
  values: \<open>NaN\<close>, the two infinities (\<open>Infinite True\<close> is the negative one), and the finite
  values, \<open>Dyadic s m e\<close> standing for \<open>m * 2 ^ e\<close> with the sign \<open>s\<close> (\<open>True\<close> for minus, so
  that there are two zeros). The finite doubles are those in which \<open>m\<close> has at most 53
  bits, \<open>e\<close> is at least -1074 and the magnitude is below \<open>2 ^ 1024\<close>; each is written in one
  way, with \<open>m\<close> odd, or with \<open>m\<close> and \<open>e\<close> both 0. The elements of a \<open>Float32Array\<close> are
  binary32 values, each of which is a binary64 value, and reading one gives that value.
\<close>

datatype double = NotANumber | Infinite bool | Dyadic bool nat int

fun bitLength :: "nat \<Rightarrow> nat" where
  "bitLength n = (if n = 0 then 0 else Suc (bitLength (n div 2)))"

fun oddMantissa :: "nat \<Rightarrow> int \<Rightarrow> nat \<times> int" where
  "oddMantissa m e =
    (if m = 0 then (0, 0) else if even m then oddMantissa (m div 2) (e + 1) else (m, e))"

fun isDouble :: "double \<Rightarrow> bool" where
  "isDouble (Dyadic s m e) \<longleftrightarrow>
     m = 0 \<and> e = 0 \<or> odd m \<and> m < 2 ^ 53 \<and> - 1074 \<le> e \<and> e + int (bitLength m) \<le> 1024"
| "isDouble _ \<longleftrightarrow> True"

text \<open>
  Rounding to nearest, ties to even, of the exact value \<open>m * 2 ^ e\<close> with the sign
  \<open>negative\<close>: \<open>ulp\<close> is the exponent of the last place of the doubles around the value,
  \<open>q\<close> the multiple of \<open>2 ^ ulp\<close> nearest to it, the even one of two that are equally
  near; a result of \<open>2 ^ 1024\<close> or more is infinite.
\<close>

definition roundTiesToEven :: "bool \<Rightarrow> nat \<Rightarrow> int \<Rightarrow> double" where
  "roundTiesToEven negative m e =
    (let ulp = max (e + int (bitLength m) - 53) (- 1074);
         q = (if ulp \<le> e then m * 2 ^ nat (e - ulp)
              else let d = 2 ^ nat (ulp - e); q = m div d; r = m mod d
                   in if d < 2 * r \<or> (2 * r = d \<and> odd q) then q + 1 else q)
     in if 1024 < int (bitLength q) + ulp then Infinite negative
        else case oddMantissa q ulp of (m', e') \<Rightarrow> Dyadic negative m' e')"

text \<open>
  \<open>Number::add\<close> of ECMAScript, the \<open>+\<close> of two numbers: \<open>NaN\<close> if an operand is \<open>NaN\<close>
  or the operands are infinities of opposite sign; the infinity if one operand is infinite;
  otherwise the exact sum rounded, a sum that is exactly zero being \<open>-0\<close> only when both
  operands are \<open>-0\<close>. \<open>Math.abs\<close> clears the sign. \<open>ofInt\<close> is the number an integer
  literal denotes.
\<close>

definition signedMantissa :: "bool \<Rightarrow> nat \<Rightarrow> int" where
  "signedMantissa negative m = (if negative then - int m else int m)"

fun Number_add :: "double \<Rightarrow> double \<Rightarrow> double" where
  "Number_add NotANumber y = NotANumber"
| "Number_add x NotANumber = NotANumber"
| "Number_add (Infinite s) (Infinite t) = (if s = t then Infinite s else NotANumber)"
| "Number_add (Infinite s) (Dyadic t n f) = Infinite s"
| "Number_add (Dyadic s m e) (Infinite t) = Infinite t"
| "Number_add (Dyadic s m e) (Dyadic t n f) =
    (let g = min e f;
         i = signedMantissa s (m * 2 ^ nat (e - g)) + signedMantissa t (n * 2 ^ nat (f - g))
     in if i = 0 then Dyadic (s \<and> t) 0 0
        else roundTiesToEven (i < 0) (nat \<bar>i\<bar>) g)"

fun Math_abs :: "double \<Rightarrow> double" where
  "Math_abs NotANumber = NotANumber"
| "Math_abs (Infinite s) = Infinite False"
| "Math_abs (Dyadic s m e) = Dyadic False m e"

definition ofInt :: "int \<Rightarrow> double" where
  "ofInt i = (if i = 0 then Dyadic False 0 0 else roundTiesToEven (i < 0) (nat \<bar>i\<bar>) 0)"

text \<open>
  \<open>x >= 0\<close> on numbers, which is false of \<open>NaN\<close> and true of both zeros; the numbers
  with a plus sign, which \<open>Math.abs\<close> gives unless it gives \<open>NaN\<close>; and the real number a
  finite double stands for.
\<close>

fun isNonNegative :: "double \<Rightarrow> bool" where
  "isNonNegative NotANumber \<longleftrightarrow> False"
| "isNonNegative (Infinite s) \<longleftrightarrow> \<not> s"
| "isNonNegative (Dyadic s m e) \<longleftrightarrow> \<not> s \<or> m = 0"

definition plusSigned :: "double \<Rightarrow> bool" where
  "plusSigned x \<longleftrightarrow> x = Infinite False \<or> (\<exists>m e. x = Dyadic False m e)"

fun valueOf :: "double \<Rightarrow> real option" where
  "valueOf (Dyadic s m e) =
     Some ((if s then - 1 else 1) * real m * (if 0 \<le> e then 2 ^ nat e else 1 / 2 ^ nat (- e)))"
| "valueOf _ = None"

subsection \<open>The render job\<close>

text \<open>
  An error is an object with a name and a message; \<open>makeInnerError\<close> gives both the
  name it is passed. A promise is pending, fulfilled or rejected, and \<open>resolve\<close> and
  \<open>reject\<close> change only a pending one. The rendered buffer is the list of the samples of
  its channel 0.
\<close>

datatype InnerErrorName = InnerTimeout | InnerSuspended

fun innerErrorName :: "InnerErrorName \<Rightarrow> jstring" where
  "innerErrorName InnerTimeout = JS ''timeout''"
| "innerErrorName InnerSuspended = JS ''suspended''"

datatype js_error = Error (errorName: jstring) (errorMessage: jstring)

definition makeInnerError :: "InnerErrorName \<Rightarrow> js_error" where
  "makeInnerError n = Error (innerErrorName n) (innerErrorName n)"

datatype 'a promise = Pending | Fulfilled 'a | Rejected js_error

type_synonym audio_buffer = "double list"

text \<open>
  One run of \<open>tryRender\<close> asks the page four things: whether \<open>startRendering\<close> throws,
  the state of the context afterwards, whether the document is hidden, and the time, read
  once for \<open>startedRunningAt\<close> and once more in \<open>startRunningTimeout\<close>. The state of
  \<open>startRenderingAudio\<close> is its three variables, the promise, and the callbacks passed to
  \<open>setTimeout\<close> that have not run yet, each with its delay in milliseconds.
\<close>

datatype context_state = Running | Suspended | Closed | Interrupted

record render_attempt =
  startRenderingThrows :: "js_error option"
  contextState :: context_state
  documentHidden :: bool
  dateNow :: int
  dateNowAtTimeout :: int

datatype timer_callback = RetryRender | RejectTimeout

record render_job =
  isFinalized :: bool
  renderTryCount :: nat
  startedRunningAt :: int
  resultPromise :: "audio_buffer promise"
  timers :: "(int \<times> timer_callback) list"

text \<open>The constants and the closures of \<open>startRenderingAudio\<close>.\<close>

definition renderTryMaxCount :: nat where "renderTryMaxCount = 3"
definition renderRetryDelay :: int where "renderRetryDelay = 500"
definition runningMaxAwaitTime :: int where "runningMaxAwaitTime = 500"
definition runningSufficientTime :: int where "runningSufficientTime = 5000"

definition resolve :: "audio_buffer \<Rightarrow> render_job \<Rightarrow> render_job" where
  "resolve buffer job = (if resultPromise job = Pending then job\<lparr>resultPromise := Fulfilled buffer\<rparr> else job)"

definition reject :: "js_error \<Rightarrow> render_job \<Rightarrow> render_job" where
  "reject error job = (if resultPromise job = Pending then job\<lparr>resultPromise := Rejected error\<rparr> else job)"

definition setTimeout :: "timer_callback \<Rightarrow> int \<Rightarrow> render_job \<Rightarrow> render_job" where
  "setTimeout callback delay job = job\<lparr>timers := timers job @ [(delay, callback)]\<rparr>"

definition startRunningTimeout :: "int \<Rightarrow> render_job \<Rightarrow> render_job" where
  "startRunningTimeout now job =
     setTimeout RejectTimeout
       (min runningMaxAwaitTime (startedRunningAt job + runningSufficientTime - now)) job"

definition tryRender :: "render_attempt \<Rightarrow> render_job \<Rightarrow> render_job" where
  "tryRender a job =
    (case startRenderingThrows a of
       Some error \<Rightarrow> reject error job
     | None \<Rightarrow>
        (case contextState a of
           Running \<Rightarrow>
             (let job = job\<lparr>startedRunningAt := dateNow a\<rparr>
              in if isFinalized job then startRunningTimeout (dateNowAtTimeout a) job else job)
         | Suspended \<Rightarrow>
             (let job = (if \<not> documentHidden a
                         then job\<lparr>renderTryCount := renderTryCount job + 1\<rparr> else job)
              in if isFinalized job \<and> renderTryCount job \<ge> renderTryMaxCount
                 then reject (makeInnerError InnerSuspended) job
                 else setTimeout RetryRender renderRetryDelay job)
         | _ \<Rightarrow> job))"

definition finalize :: "int \<Rightarrow> render_job \<Rightarrow> render_job" where
  "finalize now job =
    (if \<not> isFinalized job
     then (let job = job\<lparr>isFinalized := True\<rparr>
           in if startedRunningAt job > 0 then startRunningTimeout now job else job)
     else job)"

definition newJob :: render_job where
  "newJob = \<lparr>isFinalized = False, renderTryCount = 0, startedRunningAt = 0,
     resultPromise = Pending, timers = []\<rparr>"

definition startRenderingAudio :: "render_attempt \<Rightarrow> render_job" where
  "startRenderingAudio a = tryRender a newJob"

text \<open>
  What can happen to a job after \<open>startRenderingAudio\<close> has returned: a pending timer
  fires and runs its callback (\<open>tryRender\<close> then meets a new attempt), the fingerprint
  function is called and calls \<open>finalize\<close>, or the context completes and \<open>oncomplete\<close>
  resolves the promise. Any pending timer may fire at any moment: the delays are recorded,
  the passing of time is not modelled. \<open>run\<close> is the job after a sequence of events.
\<close>

datatype event = TimerFires nat render_attempt | FinalizeCalled int | RenderingCompletes audio_buffer

definition step :: "event \<Rightarrow> render_job \<Rightarrow> render_job" where
  "step e job =
    (case e of
       TimerFires i a \<Rightarrow>
         if i < length (timers job)
         then (let callback = snd (timers job ! i);
                   job = job\<lparr>timers := take i (timers job) @ drop (Suc i) (timers job)\<rparr>
               in case callback of
                    RetryRender \<Rightarrow> tryRender a job
                  | RejectTimeout \<Rightarrow> reject (makeInnerError InnerTimeout) job)
         else job
     | FinalizeCalled now \<Rightarrow> finalize now job
     | RenderingCompletes buffer \<Rightarrow> resolve buffer job)"

definition run :: "render_attempt \<Rightarrow> event list \<Rightarrow> render_job" where
  "run a events = fold step events (startRenderingAudio a)"

subsection \<open>The fingerprint\<close>

text \<open>
  \<open>getHash\<close> adds the absolute values to \<open>hash\<close>, which starts at 0, from the first
  sample on, each \<open>+=\<close> rounding its sum; \<open>subarray\<close> with one argument keeps the elements
  from that index. \<open>fingerprintPromise\<close> is the promise
  \<open>renderPromise.then(...)\<close> as a function of the state of \<open>renderPromise\<close>;
  \<open>suppressUnhandledRejectionWarning\<close> (utils/async, not among the sources) is taken to
  return the promise it is given. A rejected fingerprint promise is the error thrown to
  the caller.
\<close>

definition getHash :: "double list \<Rightarrow> double" where
  "getHash signal = fold (\<lambda>x hash. Number_add hash (Math_abs x)) signal (Dyadic False 0 0)"

definition hashFromIndex :: nat where "hashFromIndex = 4500"
definition hashToIndex :: nat where "hashToIndex = 5000"

definition subarray :: "nat \<Rightarrow> 'a list \<Rightarrow> 'a list" where
  "subarray begin xs = drop begin xs"

definition fingerprintPromise :: "audio_buffer promise \<Rightarrow> double promise" where
  "fingerprintPromise renderPromise =
    (case renderPromise of
       Pending \<Rightarrow> Pending
     | Fulfilled buffer \<Rightarrow> Fulfilled (getHash (subarray hashFromIndex buffer))
     | Rejected error \<Rightarrow>
         if errorName error = innerErrorName InnerTimeout \<or> errorName error = innerErrorName InnerSuspended
         then Fulfilled (ofInt (sentinel Timeout))
         else Rejected error)"

text \<open>
  The two entry points return a special number or the lazy function, which stands here
  for the job it closes over.
\<close>

datatype audio_result = Special SpecialFingerprint | Lazy render_job

definition getUnstableAudioFingerprint :: "environment \<Rightarrow> render_attempt \<Rightarrow> audio_result" where
  "getUnstableAudioFingerprint env a =
    (if \<not> (hasOfflineAudioContext env \<or> hasWebkitOfflineAudioContext env) then Special NotSupported
     else if doesBrowserSuspendAudioContext env then Special KnownForSuspending
     else Lazy (startRenderingAudio a))"

definition getAudioFingerprint :: "environment \<Rightarrow> render_attempt \<Rightarrow> audio_result" where
  "getAudioFingerprint env a =
    (if isSafari17OrNewer env then Special NotSupported
     else if doesBrowserPerformAntifingerprinting env then Special KnownForAntifingerprinting
     else getUnstableAudioFingerprint env a)"

subsection \<open>Invariants of a job\<close>

text \<open>
  At most one timer is pending; a retry is pending only before the context was seen
  running, a timeout only after \<open>finalize\<close>, and neither once the promise is rejected. A
  promise rejected with the error of \<open>InnerErrorName.Suspended\<close> was rejected after
  \<open>finalize\<close>, with the retry count at its maximum.
\<close>

fun thrownBy :: "event \<Rightarrow> js_error option" where
  "thrownBy (TimerFires i a) = startRenderingThrows a"
| "thrownBy _ = None"



definition suspensionJustified :: "render_job \<Rightarrow> bool" where
  "suspensionJustified job \<longleftrightarrow>
     (resultPromise job = Rejected (makeInnerError InnerSuspended)
        \<longrightarrow> isFinalized job \<and> renderTryMaxCount \<le> renderTryCount job)"

text \<open>Sample inputs.\<close>

definition suspendedInForeground :: render_attempt where
  "suspendedInForeground = \<lparr>startRenderingThrows = None, contextState = Suspended,
     documentHidden = False, dateNow = 1000, dateNowAtTimeout = 1000\<rparr>"


definition samsungWithoutAudio :: environment where
  "samsungWithoutAudio = \<lparr>hasOfflineAudioContext = False, hasWebkitOfflineAudioContext = False,
     isWebKit = False, isDesktopWebKit = False, isWebKit606OrNewer = False, isWebKit616OrNewer = False,
     isSafariWebKit = False, isChromium = True, isSamsungInternet = True, isChromium122OrNewer = True\<rparr>"

section \<open>Properties of the hash and the anchor\<close>

subsection \<open>The digest has sixteen lowercase hexadecimal digits\<close>

declare toString16.simps [simp del]

lemma hexDigit_lower: "d < 16 \<Longrightarrow> isLowerHex (hexDigit d)"
  unfolding isLowerHex_def hexDigit_def by (rule nth_mem) (simp add: JS_def)

lemma toString16_lower: "list_all isLowerHex (toString16 n)"
proof (induction n rule: toString16.induct)
  case (1 n)
  show ?case
  proof (cases "n < 16")
    case True
    then show ?thesis by (simp add: toString16.simps [of n] hexDigit_lower)
  next
    case False
    with 1 show ?thesis by (simp add: toString16.simps [of n] hexDigit_lower)
  qed
qed

lemma toString16_length: "0 < k \<Longrightarrow> n < 16 ^ k \<Longrightarrow> length (toString16 n) \<le> k"
proof (induction k arbitrary: n)
  case 0
  then show ?case by simp
next
  case (Suc k)
  show ?case
  proof (cases "n < 16")
    case True
    then show ?thesis by (simp add: toString16.simps [of n])
  next
    case False
    with Suc.prems have k: "0 < k" by (cases k) auto
    from Suc.prems have "n div 16 < 16 ^ k" by (simp add: less_mult_imp_div_less mult.commute)
    from Suc.IH [OF k this] False show ?thesis by (simp add: toString16.simps [of n])
  qed
qed

lemma lane_length: "length (padStart 8 c (toString16 (unat (h :: 32 word)))) = 8"
proof -
  have "unat h < 16 ^ 8" using unsigned_less [of h, where 'a = nat] by simp
  then have "length (toString16 (unat h)) \<le> 8" by (intro toString16_length) simp_all
  then show ?thesis by (simp add: padStart_def)
qed

lemma isLowerHex_zero: "isLowerHex 48"
  by (simp add: isLowerHex_def JS_def)

lemma lane_lower:
  "isLowerHex c \<Longrightarrow> list_all isLowerHex (padStart 8 c (toString16 (unat (h :: 32 word))))"
  using toString16_lower [of "unat h"] by (auto simp: padStart_def list_all_iff)

lemma hashString_length: "length (hashString s) = 16"
  by (simp add: hashString_def Let_def lane_length split: prod.splits)

lemma hashString_lower: "list_all isLowerHex (hashString s)"
  by (simp add: hashString_def Let_def lane_lower isLowerHex_zero split: prod.splits)

lemma replacer_undefined: "replacer v = JUndefined \<longleftrightarrow> v = JUndefined"
  by (cases v) (simp_all add: replacer_def)

lemma canonicalize_None: "canonicalize v = None \<longleftrightarrow> v = JUndefined"
  by (cases "replacer v") (use replacer_undefined [of v] in \<open>auto simp: canonicalize_def\<close>)

text \<open>
  Claim C9, as the code has it. For every input value other than \<open>undefined\<close>, \<open>stableHash\<close>
  returns a digest: the value itself when it is a string, its canonical text otherwise, is
  run through the two 32-bit accumulators of \<open>hashLanes\<close> (seeded with two constants
  XOR-ed with the length, mixed per code unit, crossed in the final pass), and the digest
  is the two accumulators printed as two lanes of eight lowercase hexadecimal digits,
  sixteen in all. Being a function of its input, it returns the same digest on every call.
\<close>

theorem stableHash_digest:
  assumes "val \<noteq> JUndefined"
  shows "\<exists>json h1 h2 hi lo.
           (case val of JStr s \<Rightarrow> Some s | _ \<Rightarrow> canonicalize val) = Some json
         \<and> hashLanes json = (h1, h2)
         \<and> hi = padStart 8 (of_char CHR ''0'') (toString16 (unat h1))
         \<and> lo = padStart 8 (of_char CHR ''0'') (toString16 (unat h2))
         \<and> length hi = 8 \<and> length lo = 8
         \<and> stableHash val = Some (hi @ lo)
         \<and> length (hi @ lo) = 16 \<and> list_all isLowerHex (hi @ lo)"
proof -
  from assms obtain json where j: "(case val of JStr s \<Rightarrow> Some s | _ \<Rightarrow> canonicalize val) = Some json"
    using canonicalize_None [of val] by (cases val) auto
  obtain h1 h2 where h: "hashLanes json = (h1, h2)" by (cases "hashLanes json")
  have s: "stableHash val = Some (hashString json)" using j by (simp add: stableHash_def)
  have e: "hashString json = padStart 8 (of_char CHR ''0'') (toString16 (unat h1))
      @ padStart 8 (of_char CHR ''0'') (toString16 (unat h2))"
    using h by (simp add: hashString_def)
  show ?thesis
    using j h s e hashString_length [of json] hashString_lower [of json] lane_length
    by (intro exI conjI) (simp_all only: refl)
qed

theorem stableHash_digest_witness:
  "JObj [] \<noteq> JUndefined
   \<and> (\<exists>d. stableHash (JObj []) = Some d \<and> length d = 16 \<and> list_all isLowerHex d)"
proof -
  have "JObj [] \<noteq> JUndefined" by simp
  from stableHash_digest [OF this] show ?thesis by auto
qed

text \<open>
  Claim C9 as stated, for every input value, fails at \<open>undefined\<close>: it has no canonical
  text, and \<open>stableHash\<close> throws instead of returning a digest.
\<close>

theorem stableHash_undefined_throws: "stableHash JUndefined = None"
  using canonicalize_None [of JUndefined] by (simp add: stableHash_def)

subsection \<open>Reading what was assigned\<close>

declare serializeJSONProperty.simps [simp del] parseStringified.simps [simp del]

lemma getProperty_absent: "k \<notin> set (map fst ps) \<Longrightarrow> getProperty ps k = JUndefined"
  by (induction ps) (auto simp del: set_map)

lemma getProperty_updateProperty:
  "k \<in> set (map fst ps) \<Longrightarrow>
     getProperty (updateProperty ps k v) k' = (if k' = k then v else getProperty ps k')"
  by (induction ps) (auto simp del: set_map)

lemma getProperty_insertProperty:
  "k \<notin> set (map fst ps) \<Longrightarrow>
     getProperty (insertProperty ps k v) k' = (if k' = k then v else getProperty ps k')"
  by (induction ps) (auto simp del: set_map)

lemma getProperty_setProperty:
  "getProperty (setProperty ps k v) k' = (if k' = k then v else getProperty ps k')"
  by (simp add: setProperty_def getProperty_updateProperty getProperty_insertProperty)

lemma keys_updateProperty: "map fst (updateProperty ps k v) = map fst ps"
  by (induction ps) auto

lemma keys_insertProperty: "set (map fst (insertProperty ps k v)) = insert k (set (map fst ps))"
proof (induction ps)
  case Nil
  then show ?case by simp
next
  case (Cons p ps)
  obtain k' v' where p: "p = (k', v')" by (cases p)
  show ?case
  proof (cases "precedes k k'")
    case True
    then show ?thesis by (simp add: p del: set_map)
  next
    case False
    then show ?thesis using Cons.IH by (simp add: p insert_commute del: set_map)
  qed
qed

lemma keys_setProperty: "set (map fst (setProperty ps k v)) = insert k (set (map fst ps))"
  by (simp add: setProperty_def keys_updateProperty keys_insertProperty insert_absorb del: set_map)

lemma distinct_insertProperty:
  "k \<notin> set (map fst ps) \<Longrightarrow> distinct (map fst ps) \<Longrightarrow> distinct (map fst (insertProperty ps k v))"
proof (induction ps)
  case Nil
  then show ?case by simp
next
  case (Cons p ps)
  obtain k' v' where p: "p = (k', v')" by (cases p)
  from Cons.prems p have "k' \<notin> set (map fst (insertProperty ps k v))"
    by (auto simp add: keys_insertProperty simp del: set_map)
  with Cons p show ?case by (auto simp del: set_map)
qed

lemma distinct_setProperty:
  "distinct (map fst ps) \<Longrightarrow> distinct (map fst (setProperty ps k v))"
  by (simp add: setProperty_def keys_updateProperty distinct_insertProperty del: set_map)

lemma fold_assign_get:
  "getProperty (fold (\<lambda>k sorted. setProperty sorted k (f k)) ks acc) k' =
     (if k' \<in> set ks then f k' else getProperty acc k')"
  by (induction ks arbitrary: acc) (auto simp: getProperty_setProperty)

lemma fold_assign_distinct:
  "distinct (map fst acc) \<Longrightarrow> distinct (map fst (fold (\<lambda>k sorted. setProperty sorted k (f k)) ks acc))"
  by (induction ks arbitrary: acc) (simp_all add: distinct_setProperty del: set_map)

lemma fold_assign_keys:
  "set (map fst (fold (\<lambda>k sorted. setProperty sorted k (f k)) ks acc)) = set ks \<union> set (map fst acc)"
  by (induction ks arbitrary: acc) (simp_all add: keys_setProperty del: set_map)

lemma fold_pairs_get:
  "distinct (map fst ms) \<Longrightarrow>
     getProperty (fold (\<lambda>(k, y) obj. setProperty obj k y) ms acc) k' =
       (if k' \<in> set (map fst ms) then getProperty ms k' else getProperty acc k')"
proof (induction ms arbitrary: acc)
  case Nil
  then show ?case by simp
next
  case (Cons m ms)
  obtain k y where m: "m = (k, y)" by (cases m)
  from Cons.prems m have d: "distinct (map fst ms)" and k: "k \<notin> set (map fst ms)" by simp_all
  show ?case
    using Cons.IH [OF d, of "setProperty acc k y"] k
    by (auto simp add: m getProperty_setProperty simp del: set_map)
qed

lemma members_Nil: "members g [] = []"
  by (simp add: members_def)

lemma members_Cons:
  "members g ((k, x) # ps) = (case g x of None \<Rightarrow> members g ps | Some y \<Rightarrow> (k, y) # members g ps)"
  by (simp add: members_def split: option.splits)

lemma members_keys: "j \<in> set (map fst (members g ps)) \<Longrightarrow> j \<in> set (map fst ps)"
proof (induction ps)
  case Nil
  then show ?case by (simp add: members_Nil)
next
  case (Cons p ps)
  obtain k x where p: "p = (k, x)" by (cases p)
  from Cons show ?case
    unfolding p by (cases "g x") (auto simp add: members_Cons simp del: set_map)
qed

lemma members_distinct: "distinct (map fst ps) \<Longrightarrow> distinct (map fst (members g ps))"
proof (induction ps)
  case Nil
  then show ?case by (simp add: members_Nil)
next
  case (Cons p ps)
  obtain k x where p: "p = (k, x)" by (cases p)
  from Cons.prems p have "k \<notin> set (map fst ps)" by simp
  with members_keys [of k g ps] have "k \<notin> set (map fst (members g ps))" by blast
  with Cons show ?case
    unfolding p by (cases "g x") (auto simp add: members_Cons simp del: set_map)
qed

lemma members_get:
  "distinct (map fst ps) \<Longrightarrow> g JUndefined = None \<Longrightarrow>
     getProperty (members g ps) k' = (case g (getProperty ps k') of None \<Rightarrow> JUndefined | Some y \<Rightarrow> y)"
proof (induction ps)
  case Nil
  then show ?case by (simp add: members_Nil)
next
  case (Cons p ps)
  obtain k x where p: "p = (k, x)" by (cases p)
  from Cons.prems p have k: "k \<notin> set (map fst ps)" and d: "distinct (map fst ps)" by simp_all
  from k members_keys [of k g ps] have "k \<notin> set (map fst (members g ps))" by blast
  then have a: "getProperty (members g ps) k = JUndefined" by (rule getProperty_absent)
  show ?case
    using Cons.IH [OF d Cons.prems(2)] a
    unfolding p by (cases "g x") (auto simp add: members_Cons)
qed

lemma parseStringified_undefined: "parseStringified JUndefined = None"
  by (simp add: parseStringified.simps [of JUndefined] replacer_def)

lemma replacer_JObj_get:
  "\<exists>sorted. replacer (JObj ps) = JObj sorted \<and> distinct (map fst sorted)
     \<and> (\<forall>k. getProperty sorted k = (if k = JS ''__proto__'' then JUndefined else getProperty ps k))"
proof -
  let ?sorted = "fold (\<lambda>k sorted. setProperty sorted k (getProperty ps k))
      (filter (\<lambda>k. k \<noteq> JS ''__proto__'') (sort (map fst ps))) []"
  have "getProperty ?sorted k = (if k = JS ''__proto__'' then JUndefined else getProperty ps k)" for k
    using getProperty_absent [of k ps] by (simp add: fold_assign_get del: set_map)
  moreover have "distinct (map fst ?sorted)" by (rule fold_assign_distinct) simp
  ultimately show ?thesis by (simp add: replacer_JObj)
qed

lemma parseStringified_JObj:
  "\<exists>qs. parseStringified (JObj ps) = Some (JObj qs)
     \<and> (\<forall>k. k \<noteq> JS ''__proto__'' \<longrightarrow>
           getProperty qs k = (case parseStringified (getProperty ps k) of None \<Rightarrow> JUndefined | Some y \<Rightarrow> y))"
proof -
  from replacer_JObj_get [of ps] obtain sorted where r: "replacer (JObj ps) = JObj sorted"
    and d: "distinct (map fst sorted)"
    and g: "\<And>k. getProperty sorted k = (if k = JS ''__proto__'' then JUndefined else getProperty ps k)"
    by blast
  let ?ms = "members parseStringified sorted"
  let ?qs = "fold (\<lambda>(k, y) obj. setProperty obj k y) ?ms []"
  have p: "parseStringified (JObj ps) = Some (JObj ?qs)"
    by (simp add: parseStringified.simps [of "JObj ps"] r members_def)
  have "getProperty ?qs k = (case parseStringified (getProperty ps k) of None \<Rightarrow> JUndefined | Some y \<Rightarrow> y)"
    if "k \<noteq> JS ''__proto__''" for k
  proof -
    have "getProperty ?qs k = getProperty ?ms k"
      using getProperty_absent [of k ?ms]
      by (simp add: fold_pairs_get [OF members_distinct [OF d]] del: set_map)
    also have "\<dots> = (case parseStringified (getProperty sorted k) of None \<Rightarrow> JUndefined | Some y \<Rightarrow> y)"
      by (rule members_get [of sorted parseStringified, OF d parseStringified_undefined])
    finally show ?thesis using that by (simp add: g)
  qed
  with p show ?thesis by blast
qed

lemma stableHash_defined: "val \<noteq> JUndefined \<Longrightarrow> \<exists>json. stableHash val = Some (hashString json)"
  using canonicalize_None [of val] by (cases val) (auto simp: stableHash_def)

lemma hashOfStrings_defined: "\<exists>h. hashOfStrings xs = Some (JStr h)"
  using stableHash_defined [of "JArr (map JStr xs)"] by (auto simp: hashOfStrings_def)

lemma optional_field_defined:
  "(\<And>y. \<exists>v. g y = Some v) \<Longrightarrow> \<exists>v. (case x of None \<Rightarrow> Some JUndefined | Some y \<Rightarrow> g y) = Some v"
  by (cases x) auto

lemma nonempty_hash_defined:
  "\<exists>v. (if xs = [] then Some JUndefined else hashOfStrings (f xs)) = Some v"
  using hashOfStrings_defined [of "f xs"] by (cases "xs = []") auto

lemma anchorObject_defined:
  "\<exists>ps. anchorObject toLowerCase b = Some (JObj ps)
     \<and> getProperty ps (JS ''audio'') =
         (case audioFingerprint b of Some (AudioNumber n) \<Rightarrow> JNum n | _ \<Rightarrow> JUndefined)"
proof -
  let ?pt = "\<lambda>t. map_option JStr (stableHash
      (JObj [(JS ''precision'', JNum (precision t)), (JS ''baseline'', JNum (baseline t))]))"
  have "\<exists>v. ?pt t = Some v" for t
    using stableHash_defined [of "JObj [(JS ''precision'', JNum (precision t)), (JS ''baseline'', JNum (baseline t))]"]
    by auto
  from optional_field_defined [of ?pt "performanceTiming b", OF this]
  obtain pt where pt: "(case performanceTiming b of
              None \<Rightarrow> Some JUndefined
            | Some t \<Rightarrow> map_option JStr (stableHash
                (JObj [(JS ''precision'', JNum (precision t)), (JS ''baseline'', JNum (baseline t))]))) = Some pt"
    by blast
  have "\<exists>v. hashOfStrings xs = Some v" for xs using hashOfStrings_defined [of xs] by blast
  from optional_field_defined [of hashOfStrings "map_option sort (Option.bind (webgl b) WebGlSignals.extensions)", OF this]
  obtain ext where ext: "(case map_option sort (Option.bind (webgl b) WebGlSignals.extensions) of
      None \<Rightarrow> Some JUndefined | Some xs \<Rightarrow> hashOfStrings xs) = Some ext"
    by blast
  from optional_field_defined [of "\<lambda>xs. if xs = [] then Some JUndefined
                          else hashOfStrings (sort (rev (remdups (rev xs))))"
      "Option.bind (webgExtensions b) WebGlExtensionsPayload.extensions",
      OF nonempty_hash_defined [of _ "\<lambda>xs. sort (rev (remdups (rev xs)))"]]
  obtain xExt where xExt: "(case Option.bind (webgExtensions b) WebGlExtensionsPayload.extensions of
                None \<Rightarrow> Some JUndefined
              | Some xs \<Rightarrow> if xs = [] then Some JUndefined
                          else hashOfStrings (sort (rev (remdups (rev xs))))) = Some xExt"
    by blast
  from optional_field_defined [of "\<lambda>xs. if xs = [] then Some JUndefined else hashOfStrings (sort xs)"
      "map_option parameters (webgExtensions b)", OF nonempty_hash_defined [of _ sort]]
  obtain params where params: "(case map_option parameters (webgExtensions b) of
                  None \<Rightarrow> Some JUndefined
                | Some xs \<Rightarrow> if xs = [] then Some JUndefined else hashOfStrings (sort xs)) = Some params"
    by blast
  from optional_field_defined [of "\<lambda>xs. if xs = [] then Some JUndefined else hashOfStrings (sort xs)"
      "map_option shaderPrecisions (webgExtensions b)", OF nonempty_hash_defined [of _ sort]]
  obtain shader where shader: "(case map_option shaderPrecisions (webgExtensions b) of
                  None \<Rightarrow> Some JUndefined
                | Some xs \<Rightarrow> if xs = [] then Some JUndefined else hashOfStrings (sort xs)) = Some shader"
    by blast
  show ?thesis
    unfolding anchorObject_def Let_def pt ext xExt params shader
    by (simp add: JS_def)
qed

lemma parseStringified_JNum:
  "parseStringified (JNum n) = Some (if isFinite n then JNum n else JNull)"
  by (simp add: parseStringified.simps [of "JNum n"] replacer_def)

lemma computeAnchor_defined:
  "\<exists>qs. computeAnchor toLowerCase b = Some (JObj qs)
     \<and> getProperty qs (JS ''audio'') =
         (case audioFingerprint b of
            Some (AudioNumber n) \<Rightarrow> if isFinite n then JNum n else JNull
          | _ \<Rightarrow> JUndefined)"
proof -
  from anchorObject_defined [of toLowerCase b] obtain ps
    where a: "anchorObject toLowerCase b = Some (JObj ps)"
      and g: "getProperty ps (JS ''audio'') =
         (case audioFingerprint b of Some (AudioNumber n) \<Rightarrow> JNum n | _ \<Rightarrow> JUndefined)" by blast
  from parseStringified_JObj [of ps] obtain qs
    where p: "parseStringified (JObj ps) = Some (JObj qs)"
      and q0: "\<And>k. k \<noteq> JS ''__proto__'' \<Longrightarrow> getProperty qs k =
        (case parseStringified (getProperty ps k) of None \<Rightarrow> JUndefined | Some y \<Rightarrow> y)" by blast
  have "JS ''audio'' \<noteq> JS ''__proto__''" by (simp add: JS_def)
  note q = q0 [OF this]
  have "getProperty qs (JS ''audio'') =
         (case audioFingerprint b of
            Some (AudioNumber n) \<Rightarrow> if isFinite n then JNum n else JNull
          | _ \<Rightarrow> JUndefined)"
    unfolding q g
    by (simp add: parseStringified_JNum parseStringified_undefined split: option.splits audio_signal.splits)
  with a p show ?thesis by (simp add: computeAnchor_def)
qed

lemma computeVisitorId_defined:
  "\<exists>qs canon. computeAnchor toLowerCase b = Some (JObj qs) \<and> canonicalize (JObj qs) = Some canon
     \<and> computeVisitorId toLowerCase b = Some \<lparr>anchor = JObj qs, visitorId = hashString canon\<rparr>"
proof -
  from computeAnchor_defined [of toLowerCase b] obtain qs
    where a: "computeAnchor toLowerCase b = Some (JObj qs)" by blast
  from canonicalize_None [of "JObj qs"] obtain canon where t: "canonicalize (JObj qs) = Some canon"
    by auto
  have "take 22 (hashString canon) = hashString canon" by (simp add: hashString_length)
  with a t show ?thesis by (simp add: computeVisitorId_def stableHash_def)
qed

subsection \<open>Permuted keys\<close>

lemma updateProperty_rel:
  "list_all2 (\<lambda>p q. fst p = fst q \<and> R (snd p) (snd q)) acc acc' \<Longrightarrow> R v v' \<Longrightarrow>
     list_all2 (\<lambda>p q. fst p = fst q \<and> R (snd p) (snd q)) (updateProperty acc k v) (updateProperty acc' k v')"
  by (induction acc acc' rule: list_all2_induct) auto

lemma insertProperty_rel:
  "list_all2 (\<lambda>p q. fst p = fst q \<and> R (snd p) (snd q)) acc acc' \<Longrightarrow> R v v' \<Longrightarrow>
     list_all2 (\<lambda>p q. fst p = fst q \<and> R (snd p) (snd q)) (insertProperty acc k v) (insertProperty acc' k v')"
  by (induction acc acc' rule: list_all2_induct) auto

lemma rel_keys:
  "list_all2 (\<lambda>p q. fst p = fst q \<and> R (snd p) (snd q)) acc acc' \<Longrightarrow> map fst acc = map fst acc'"
  by (induction acc acc' rule: list_all2_induct) auto

lemma setProperty_rel:
  assumes "list_all2 (\<lambda>p q. fst p = fst q \<and> R (snd p) (snd q)) acc acc'" and "R v v'"
  shows "list_all2 (\<lambda>p q. fst p = fst q \<and> R (snd p) (snd q)) (setProperty acc k v) (setProperty acc' k v')"
  using updateProperty_rel [OF assms] insertProperty_rel [OF assms] rel_keys [OF assms(1)]
  by (simp add: setProperty_def del: set_map)

lemma fold_assign_rel:
  "list_all2 (\<lambda>p q. fst p = fst q \<and> R (snd p) (snd q)) acc acc' \<Longrightarrow> (\<And>k. k \<in> set ks \<Longrightarrow> R (f k) (f' k)) \<Longrightarrow>
     list_all2 (\<lambda>p q. fst p = fst q \<and> R (snd p) (snd q))
       (fold (\<lambda>k sorted. setProperty sorted k (f k)) ks acc)
       (fold (\<lambda>k sorted. setProperty sorted k (f' k)) ks acc')"
proof (induction ks arbitrary: acc acc')
  case Nil
  then show ?case by simp
next
  case (Cons k ks)
  have "R (f k) (f' k)" using Cons.prems(2) by simp
  from setProperty_rel [OF Cons.prems(1) this]
  have "list_all2 (\<lambda>p q. fst p = fst q \<and> R (snd p) (snd q))
      (setProperty acc k (f k)) (setProperty acc' k (f' k))" .
  from Cons.IH [OF this] Cons.prems(2) show ?case by simp
qed

lemma members_rel:
  "list_all2 (\<lambda>p q. fst p = fst q \<and> g (snd p) = g (snd q)) ps qs \<Longrightarrow> members g ps = members g qs"
proof (induction ps qs rule: list_all2_induct)
  case Nil
  then show ?case by simp
next
  case (Cons p ps q qs)
  obtain k x where p: "p = (k, x)" by (cases p)
  obtain k' y where q: "q = (k', y)" by (cases q)
  from Cons p q show ?case by (simp add: members_Cons split: option.splits)
qed

lemma serialize_members:
  "concat (map (\<lambda>(k, x). case g x of None \<Rightarrow> [] | Some s \<Rightarrow> [QuoteJSONString k @ JS '':'' @ s]) ps)
     = map (\<lambda>(k, s). QuoteJSONString k @ JS '':'' @ s) (members g ps)"
proof (induction ps)
  case Nil
  then show ?case by (simp add: members_Nil)
next
  case (Cons p ps)
  obtain k x where p: "p = (k, x)" by (cases p)
  from Cons show ?case unfolding p by (cases "g x") (simp_all add: members_Cons)
qed

lemma serialize_JObj:
  "serializeJSONProperty (JObj ps) =
     Some (JS ''{'' @ join (map (\<lambda>(k, s). QuoteJSONString k @ JS '':'' @ s) (emittedMembers ps)) @ JS ''}'')"
proof -
  obtain obj where r: "replacer (JObj ps) = JObj obj" by (simp add: replacer_def)
  show ?thesis
    by (simp add: serializeJSONProperty.simps [of "JObj ps"] r emittedMembers_def serialize_members)
qed

lemma keyPermuted_serialize:
  "keyPermuted v w \<Longrightarrow> serializeJSONProperty v = serializeJSONProperty w"
proof (induction rule: keyPermuted.induct)
  case (same v)
  then show ?case by simp
next
  case (arrays xs ys)
  then have "map (\<lambda>x. case serializeJSONProperty x of None \<Rightarrow> JS ''null'' | Some s \<Rightarrow> s) xs
      = map (\<lambda>x. case serializeJSONProperty x of None \<Rightarrow> JS ''null'' | Some s \<Rightarrow> s) ys"
    by (induction xs ys rule: list_all2_induct) simp_all
  then show ?case
    by (simp add: serializeJSONProperty.simps [of "JArr xs"] serializeJSONProperty.simps [of "JArr ys"]
        replacer_def)
next
  case (objects ps qs)
  have "sort (map fst ps) = sort (map fst qs)"
    using objects(1-3) by (intro sorted_distinct_set_unique) simp_all
  moreover have "list_all2 (\<lambda>p q. fst p = fst q \<and> serializeJSONProperty (snd p) = serializeJSONProperty (snd q))
       (fold (\<lambda>k sorted. setProperty sorted k (getProperty ps k))
          (filter (\<lambda>k. k \<noteq> JS ''__proto__'') (sort (map fst ps))) [])
       (fold (\<lambda>k sorted. setProperty sorted k (getProperty qs k))
          (filter (\<lambda>k. k \<noteq> JS ''__proto__'') (sort (map fst ps))) [])"
    using objects(4) by (intro fold_assign_rel) (auto simp del: set_map)
  ultimately have "emittedMembers ps = emittedMembers qs"
    by (simp add: emittedMembers_def replacer_JObj members_rel)
  then show ?case by (simp add: serialize_JObj)
qed

subsection \<open>The order of the emitted keys\<close>

lemma insertProperty_append: "\<not> isArrayIndex k \<Longrightarrow> insertProperty acc k v = acc @ [(k, v)]"
  by (induction acc) (auto simp: precedes_def)

lemma fold_assign_append:
  "distinct ks \<Longrightarrow> set ks \<inter> set (map fst acc) = {} \<Longrightarrow> (\<And>k. k \<in> set ks \<Longrightarrow> \<not> isArrayIndex k) \<Longrightarrow>
     fold (\<lambda>k sorted. setProperty sorted k (f k)) ks acc = acc @ map (\<lambda>k. (k, f k)) ks"
proof (induction ks arbitrary: acc)
  case Nil
  then show ?case by simp
next
  case (Cons k ks)
  from Cons.prems have s: "setProperty acc k (f k) = acc @ [(k, f k)]"
    by (simp add: setProperty_def insertProperty_append del: set_map)
  from Cons.prems have "set ks \<inter> set (map fst (acc @ [(k, f k)])) = {}" by auto
  from Cons.IH [of "acc @ [(k, f k)]", OF _ this] Cons.prems show ?case by (simp add: s)
qed

lemma members_map_keys:
  "map fst (members g (map (\<lambda>k. (k, f k)) ks)) = filter (\<lambda>k. g (f k) \<noteq> None) ks"
  by (induction ks) (auto simp: members_Nil members_Cons split: option.splits)

lemma serialize_None: "serializeJSONProperty x = None \<longleftrightarrow> x = JUndefined"
  using canonicalize_None [of x] by (simp add: canonicalize_def)

lemma emitted_sorted:
  assumes "distinct (map fst ps)" and "\<And>k. k \<in> set (map fst ps) \<Longrightarrow> \<not> isArrayIndex k"
  shows "map fst (emittedMembers ps)
     = filter (\<lambda>k. getProperty ps k \<noteq> JUndefined) (filter (\<lambda>k. k \<noteq> JS ''__proto__'') (sort (map fst ps)))"
proof -
  have "fold (\<lambda>k sorted. setProperty sorted k (getProperty ps k))
        (filter (\<lambda>k. k \<noteq> JS ''__proto__'') (sort (map fst ps))) []
      = [] @ map (\<lambda>k. (k, getProperty ps k)) (filter (\<lambda>k. k \<noteq> JS ''__proto__'') (sort (map fst ps)))"
    using assms by (intro fold_assign_append) simp_all
  then show ?thesis
    by (simp add: emittedMembers_def replacer_JObj members_map_keys serialize_None)
qed

lemma getProperty_distinct: "distinct (map fst ps) \<Longrightarrow> (k, x) \<in> set ps \<Longrightarrow> getProperty ps k = x"
proof (induction ps)
  case Nil
  then show ?case by simp
next
  case (Cons p ps)
  obtain k' v where p: "p = (k', v)" by (cases p)
  show ?case
  proof (cases "k' = k")
    case True
    with Cons.prems p have "k \<notin> fst ` set ps" by simp
    then have "(k, x) \<notin> set ps" by force
    with Cons.prems p True show ?thesis by simp
  next
    case False
    with Cons p show ?thesis by simp
  qed
qed

lemma members_set:
  "distinct (map fst ps) \<Longrightarrow>
     (k, s) \<in> set (members g ps) \<longleftrightarrow> k \<in> set (map fst ps) \<and> g (getProperty ps k) = Some s"
proof (induction ps)
  case Nil
  then show ?case by (simp add: members_Nil)
next
  case (Cons p ps)
  obtain k' x where p: "p = (k', x)" by (cases p)
  from Cons.prems p have d: "distinct (map fst ps)" and n: "k' \<notin> set (map fst ps)" by simp_all
  from n members_keys [of k' g ps] have m: "\<And>s. (k', s) \<notin> set (members g ps)"
    by (metis fst_conv image_eqI set_map)
  show ?case
    using Cons.IH [OF d] n m unfolding p
    by (cases "g x") (auto simp add: members_Cons simp del: set_map)
qed

lemma replacer_JObj_keys:
  "replacer (JObj ps) = JObj obj \<Longrightarrow> set (map fst obj) = set (map fst ps) - {JS ''__proto__''}"
  by (auto simp add: replacer_JObj fold_assign_keys simp del: set_map)

lemma emitted_set:
  "(k, s) \<in> set (emittedMembers ps) \<longleftrightarrow>
     k \<in> set (map fst ps) \<and> k \<noteq> JS ''__proto__'' \<and> serializeJSONProperty (getProperty ps k) = Some s"
proof -
  from replacer_JObj_get [of ps] obtain obj where r: "replacer (JObj ps) = JObj obj"
    and d: "distinct (map fst obj)"
    and g: "\<And>k. getProperty obj k = (if k = JS ''__proto__'' then JUndefined else getProperty ps k)"
    by blast
  show ?thesis
    using members_set [OF d, of k s serializeJSONProperty] replacer_JObj_keys [OF r]
    by (auto simp add: emittedMembers_def r g simp del: set_map)
qed

text \<open>
  Array-index keys are inserted among themselves by their value; the other keys are
  appended in the order of their assignment.
\<close>

declare indexValue.simps [simp del]

lemma insertProperty_index:
  assumes "map fst acc = idx @ oth" and "\<forall>i \<in> set idx. isArrayIndex i" and "\<forall>k \<in> set oth. \<not> isArrayIndex k"
    and "sorted (map indexValue idx)" and "isArrayIndex k"
  shows "\<exists>idx'. map fst (insertProperty acc k v) = idx' @ oth \<and> set idx' = insert k (set idx)
           \<and> sorted (map indexValue idx')"
  using assms
proof (induction acc arbitrary: idx)
  case Nil
  then have "map fst (insertProperty [] k v) = [k] @ oth \<and> set [k] = insert k (set idx)
      \<and> sorted (map indexValue [k])" by simp
  then show ?case by blast
next
  case (Cons p acc)
  obtain k' v' where p: "p = (k', v')" by (cases p)
  show ?case
  proof (cases idx)
    case Nil
    with Cons.prems p have "k' \<in> set oth" by (cases oth) auto
    with Cons.prems have "\<not> isArrayIndex k'" by blast
    with Cons.prems have "precedes k k'" by (simp add: precedes_def)
    with Cons.prems Nil p have "map fst (insertProperty (p # acc) k v) = [k] @ oth
        \<and> set [k] = insert k (set idx) \<and> sorted (map indexValue [k])" by simp
    then show ?thesis by blast
  next
    case (Cons i idx0)
    with Cons.prems p have ki: "k' = i" and rest: "map fst acc = idx0 @ oth" by simp_all
    show ?thesis
    proof (cases "precedes k k'")
      case True
      with Cons.prems \<open>idx = i # idx0\<close> ki have "indexValue k < indexValue i"
        by (simp add: precedes_def)
      with Cons.prems \<open>idx = i # idx0\<close> have "sorted (map indexValue (k # idx))" by auto
      moreover from True p Cons.prems have "map fst (insertProperty (p # acc) k v) = (k # idx) @ oth"
        by simp
      ultimately show ?thesis by (intro exI [of _ "k # idx"]) simp
    next
      case False
      with Cons.prems \<open>idx = i # idx0\<close> ki have le: "indexValue i \<le> indexValue k"
        by (simp add: precedes_def)
      from Cons.prems \<open>idx = i # idx0\<close> have "\<forall>i \<in> set idx0. isArrayIndex i" and "sorted (map indexValue idx0)"
        by simp_all
      from Cons.IH [OF rest this(1) Cons.prems(3) this(2) Cons.prems(5)] obtain idx'
        where idx': "map fst (insertProperty acc k v) = idx' @ oth" "set idx' = insert k (set idx0)"
          "sorted (map indexValue idx')" by blast
      from idx'(2,3) le Cons.prems(4) \<open>idx = i # idx0\<close> have "sorted (map indexValue (i # idx'))" by auto
      moreover from False p ki idx'(1) have "map fst (insertProperty (p # acc) k v) = (i # idx') @ oth"
        by simp
      moreover from idx'(2) \<open>idx = i # idx0\<close> have "set (i # idx') = insert k (set idx)" by auto
      ultimately show ?thesis by blast
    qed
  qed
qed

lemma fold_assign_order:
  assumes "distinct ks" and "set ks \<inter> set (map fst acc) = {}"
    and "map fst acc = idx @ oth" and "\<forall>i \<in> set idx. isArrayIndex i" and "\<forall>k \<in> set oth. \<not> isArrayIndex k"
    and "sorted (map indexValue idx)"
  shows "\<exists>idx'. map fst (fold (\<lambda>k sorted. setProperty sorted k (f k)) ks acc)
             = idx' @ oth @ filter (\<lambda>k. \<not> isArrayIndex k) ks
         \<and> set idx' = set idx \<union> {k \<in> set ks. isArrayIndex k}
         \<and> (\<forall>i \<in> set idx'. isArrayIndex i) \<and> sorted (map indexValue idx')"
  using assms
proof (induction ks arbitrary: acc idx oth)
  case Nil
  then have "map fst (fold (\<lambda>k sorted. setProperty sorted k (f k)) [] acc)
             = idx @ oth @ filter (\<lambda>k. \<not> isArrayIndex k) []
         \<and> set idx = set idx \<union> {k \<in> set []. isArrayIndex k}
         \<and> (\<forall>i \<in> set idx. isArrayIndex i) \<and> sorted (map indexValue idx)" by simp
  then show ?case by blast
next
  case (Cons k ks)
  let ?acc = "setProperty acc k (f k)"
  from Cons.prems(2) have new: "k \<notin> set (map fst acc)" by simp
  then have s: "?acc = insertProperty acc k (f k)" by (simp add: setProperty_def)
  have "set (map fst ?acc) = insert k (set (map fst acc))" by (rule keys_setProperty)
  with Cons.prems(1,2) have disj: "set ks \<inter> set (map fst ?acc) = {}" by auto
  from Cons.prems(1) have d: "distinct ks" by simp
  have f: "fold (\<lambda>k sorted. setProperty sorted k (f k)) (k # ks) acc
      = fold (\<lambda>k sorted. setProperty sorted k (f k)) ks ?acc" by simp
  show ?case
  proof (cases "isArrayIndex k")
    case True
    from insertProperty_index [OF Cons.prems(3-6) True, of "f k"] obtain idx1
      where i1: "map fst (insertProperty acc k (f k)) = idx1 @ oth"
        and i2: "set idx1 = insert k (set idx)"
        and i3: "sorted (map indexValue idx1)" by blast
    from i2 True Cons.prems(4) have i4: "\<forall>i \<in> set idx1. isArrayIndex i" by simp
    from i1 s have i5: "map fst ?acc = idx1 @ oth" by simp
    from Cons.IH [OF d disj i5 i4 Cons.prems(5) i3] obtain idx'
      where j1: "map fst (fold (\<lambda>k sorted. setProperty sorted k (f k)) ks ?acc)
             = idx' @ oth @ filter (\<lambda>k. \<not> isArrayIndex k) ks"
        and j2: "set idx' = set idx1 \<union> {k \<in> set ks. isArrayIndex k}"
        and j3: "\<forall>i \<in> set idx'. isArrayIndex i" and j4: "sorted (map indexValue idx')" by blast
    from j1 True have "map fst (fold (\<lambda>k sorted. setProperty sorted k (f k)) (k # ks) acc)
        = idx' @ oth @ filter (\<lambda>k. \<not> isArrayIndex k) (k # ks)" by (simp only: f) simp
    moreover from j2 i2 True have "set idx' = set idx \<union> {j \<in> set (k # ks). isArrayIndex j}"
      by auto
    ultimately show ?thesis using j3 j4 by blast
  next
    case False
    then have a: "map fst ?acc = idx @ (oth @ [k])"
      using Cons.prems(3) by (simp add: s insertProperty_append)
    from False Cons.prems(5) have o: "\<forall>j \<in> set (oth @ [k]). \<not> isArrayIndex j" by simp
    from Cons.IH [OF d disj a Cons.prems(4) o Cons.prems(6)] obtain idx'
      where j1: "map fst (fold (\<lambda>k sorted. setProperty sorted k (f k)) ks ?acc)
             = idx' @ (oth @ [k]) @ filter (\<lambda>k. \<not> isArrayIndex k) ks"
        and j2: "set idx' = set idx \<union> {k \<in> set ks. isArrayIndex k}"
        and j3: "\<forall>i \<in> set idx'. isArrayIndex i" and j4: "sorted (map indexValue idx')" by blast
    from j1 False have "map fst (fold (\<lambda>k sorted. setProperty sorted k (f k)) (k # ks) acc)
        = idx' @ oth @ filter (\<lambda>k. \<not> isArrayIndex k) (k # ks)" by (simp only: f) simp
    moreover from j2 False have "set idx' = set idx \<union> {j \<in> set (k # ks). isArrayIndex j}"
      by auto
    ultimately show ?thesis using j3 j4 by blast
  qed
qed

lemma proto_not_index: "\<not> isArrayIndex (JS ''__proto__'')"
  by (simp add: isArrayIndex_def isDigit_def JS_def)

lemma replaced_order:
  assumes "distinct (map fst ps)"
  shows "\<exists>idx obj. replacer (JObj ps) = JObj obj
         \<and> map fst obj = idx @ filter (\<lambda>k. \<not> isArrayIndex k \<and> k \<noteq> JS ''__proto__'') (sort (map fst ps))
         \<and> set idx = {k \<in> set (map fst ps). isArrayIndex k} \<and> distinct idx
         \<and> sorted (map indexValue idx)"
proof -
  define ks where "ks = filter (\<lambda>k. k \<noteq> JS ''__proto__'') (sort (map fst ps))"
  define obj where "obj = fold (\<lambda>k sorted. setProperty sorted k (getProperty ps k)) ks []"
  from assms have dk: "distinct ks" by (simp add: ks_def)
  have e: "set ks \<inter> set (map fst ([] :: jsobject)) = {}" by simp
  have m: "map fst ([] :: jsobject) = [] @ []" by simp
  have "\<exists>idx'. map fst (fold (\<lambda>k sorted. setProperty sorted k (getProperty ps k)) ks [])
             = idx' @ [] @ filter (\<lambda>k. \<not> isArrayIndex k) ks
         \<and> set idx' = set [] \<union> {k \<in> set ks. isArrayIndex k}
         \<and> (\<forall>i \<in> set idx'. isArrayIndex i) \<and> sorted (map indexValue idx')"
    by (rule fold_assign_order [OF dk e m]) simp_all
  then obtain idx where i1: "map fst obj = idx @ filter (\<lambda>k. \<not> isArrayIndex k) ks"
    and i2: "set idx = {k \<in> set ks. isArrayIndex k}" and i3: "sorted (map indexValue idx)"
    unfolding obj_def by auto
  have "distinct (map fst obj)" unfolding obj_def by (rule fold_assign_distinct) simp
  with i1 have d: "distinct idx" by simp
  have "set ks = set (map fst ps) - {JS ''__proto__''}" by (auto simp: ks_def)
  with i2 proto_not_index have s: "set idx = {k \<in> set (map fst ps). isArrayIndex k}" by blast
  have f: "filter (\<lambda>k. \<not> isArrayIndex k) ks
      = filter (\<lambda>k. \<not> isArrayIndex k \<and> k \<noteq> JS ''__proto__'') (sort (map fst ps))"
    by (simp add: ks_def conj_commute)
  have r: "replacer (JObj ps) = JObj obj" by (simp add: replacer_JObj obj_def ks_def)
  from r i1 f s d i3 show ?thesis by (intro exI [of _ idx] exI [of _ obj]) (simp only: simp_thms)
qed

lemma members_filter_keys:
  "map fst (members g ps) = map fst (filter (\<lambda>(k, x). g x \<noteq> None) ps)"
  by (induction ps) (auto simp: members_Nil members_Cons split: option.splits)

lemma filter_keys_distinct:
  "distinct (map fst ps) \<Longrightarrow>
     map fst (filter (\<lambda>(k, x). P x) ps) = filter (\<lambda>k. P (getProperty ps k)) (map fst ps)"
proof (induction ps)
  case Nil
  then show ?case by simp
next
  case (Cons p ps)
  obtain k x where p: "p = (k, x)" by (cases p)
  from Cons.prems p have k: "k \<notin> set (map fst ps)" and d: "distinct (map fst ps)" by simp_all
  have "filter (\<lambda>j. P (getProperty ((k, x) # ps) j)) (map fst ps)
      = filter (\<lambda>j. P (getProperty ps j)) (map fst ps)"
    using k by (intro filter_cong) auto
  with Cons.IH [OF d] show ?case by (simp add: p)
qed

lemma emitted_order:
  assumes "distinct (map fst ps)"
  shows "\<exists>idx. map fst (emittedMembers ps)
           = filter (\<lambda>k. getProperty ps k \<noteq> JUndefined)
               (idx @ filter (\<lambda>k. \<not> isArrayIndex k \<and> k \<noteq> JS ''__proto__'') (sort (map fst ps)))
         \<and> set idx = {k \<in> set (map fst ps). isArrayIndex k} \<and> distinct idx
         \<and> sorted (map indexValue idx)"
proof -
  from replaced_order [OF assms] obtain idx obj where r: "replacer (JObj ps) = JObj obj"
    and o: "map fst obj = idx @ filter (\<lambda>k. \<not> isArrayIndex k \<and> k \<noteq> JS ''__proto__'') (sort (map fst ps))"
    and idx: "set idx = {k \<in> set (map fst ps). isArrayIndex k}" "distinct idx" "sorted (map indexValue idx)"
    by blast
  from replacer_JObj_get [of ps] r have d: "distinct (map fst obj)"
    and g: "\<And>k. getProperty obj k = (if k = JS ''__proto__'' then JUndefined else getProperty ps k)"
    by auto
  from idx(1) proto_not_index have n: "\<forall>k \<in> set idx. k \<noteq> JS ''__proto__''" by auto
  have "map fst (emittedMembers ps)
      = filter (\<lambda>k. serializeJSONProperty (getProperty obj k) \<noteq> None) (map fst obj)"
    by (simp add: emittedMembers_def r members_filter_keys filter_keys_distinct [OF d])
  also have "\<dots> = filter (\<lambda>k. getProperty obj k \<noteq> JUndefined) (map fst obj)"
    by (simp add: serialize_None)
  also have "\<dots> = filter (\<lambda>k. getProperty ps k \<noteq> JUndefined) (map fst obj)"
    unfolding o using n by (intro filter_cong) (auto simp: g)
  finally have "map fst (emittedMembers ps)
      = filter (\<lambda>k. getProperty ps k \<noteq> JUndefined)
          (idx @ filter (\<lambda>k. \<not> isArrayIndex k \<and> k \<noteq> JS ''__proto__'') (sort (map fst ps)))"
    by (simp only: o)
  with idx show ?thesis by blast
qed

text \<open>
  What the encoder does for every value. Values equal up to a permutation of record keys
  at every depth have the same canonical text. The text of a record lists its members
  between braces; a member is written exactly when its key is a key of the record other
  than \<open>__proto__\<close> and its value has a canonical text, which is then the member's text, so
  that a field whose value is \<open>undefined\<close> is dropped. The keys that are array indices come
  first, in ascending numeric order, and the other keys after them in lexicographic order.
\<close>

lemma canonicalize_members:
  "(keyPermuted v w \<longrightarrow> canonicalize v = canonicalize w)
   \<and> canonicalize (JObj ps) =
       Some (JS ''{'' @ join (map (\<lambda>(k, s). QuoteJSONString k @ JS '':'' @ s) (emittedMembers ps)) @ JS ''}'')
   \<and> (\<forall>k s. (k, s) \<in> set (emittedMembers ps)
         \<longleftrightarrow> k \<in> set (map fst ps) \<and> k \<noteq> JS ''__proto__'' \<and> canonicalize (getProperty ps k) = Some s)
   \<and> (\<forall>k. getProperty ps k = JUndefined \<longrightarrow> k \<notin> set (map fst (emittedMembers ps)))
   \<and> (distinct (map fst ps) \<and> (\<forall>k \<in> set (map fst ps). \<not> isArrayIndex k \<and> k \<noteq> JS ''__proto__'') \<longrightarrow>
        map fst (emittedMembers ps) = filter (\<lambda>k. getProperty ps k \<noteq> JUndefined) (sort (map fst ps))
        \<and> sorted (map fst (emittedMembers ps)))
   \<and> (distinct (map fst ps) \<longrightarrow>
        (\<exists>idx. map fst (emittedMembers ps)
                 = filter (\<lambda>k. getProperty ps k \<noteq> JUndefined)
                     (idx @ filter (\<lambda>k. \<not> isArrayIndex k \<and> k \<noteq> JS ''__proto__'') (sort (map fst ps)))
               \<and> set idx = {k \<in> set (map fst ps). isArrayIndex k} \<and> distinct idx
               \<and> sorted (map indexValue idx)))"
proof -
  have a: "keyPermuted v w \<Longrightarrow> canonicalize v = canonicalize w"
    by (simp add: canonicalize_def keyPermuted_serialize)
  have b: "canonicalize (JObj ps) =
       Some (JS ''{'' @ join (map (\<lambda>(k, s). QuoteJSONString k @ JS '':'' @ s) (emittedMembers ps)) @ JS ''}'')"
    by (simp add: canonicalize_def serialize_JObj)
  have c: "(k, s) \<in> set (emittedMembers ps)
         \<longleftrightarrow> k \<in> set (map fst ps) \<and> k \<noteq> JS ''__proto__'' \<and> canonicalize (getProperty ps k) = Some s" for k s
    by (simp add: canonicalize_def emitted_set del: set_map)
  have d: "k \<notin> set (map fst (emittedMembers ps))" if "getProperty ps k = JUndefined" for k
  proof
    assume "k \<in> set (map fst (emittedMembers ps))"
    then obtain s where "(k, s) \<in> set (emittedMembers ps)" by auto
    with c [of k s] that canonicalize_None [of JUndefined] show False by simp
  qed
  have e: "map fst (emittedMembers ps) = filter (\<lambda>k. getProperty ps k \<noteq> JUndefined) (sort (map fst ps))
        \<and> sorted (map fst (emittedMembers ps))"
    if "distinct (map fst ps)" and "\<forall>k \<in> set (map fst ps). \<not> isArrayIndex k \<and> k \<noteq> JS ''__proto__''"
  proof -
    from that(2) have "filter (\<lambda>k. k \<noteq> JS ''__proto__'') (sort (map fst ps)) = sort (map fst ps)"
      by (intro filter_True) simp
    with emitted_sorted [of ps] that show ?thesis by (simp add: sorted_wrt_filter del: set_map)
  qed
  have f: "\<exists>idx. map fst (emittedMembers ps)
                 = filter (\<lambda>k. getProperty ps k \<noteq> JUndefined)
                     (idx @ filter (\<lambda>k. \<not> isArrayIndex k \<and> k \<noteq> JS ''__proto__'') (sort (map fst ps)))
               \<and> set idx = {k \<in> set (map fst ps). isArrayIndex k} \<and> distinct idx
               \<and> sorted (map indexValue idx)"
    if "distinct (map fst ps)"
    using emitted_order [OF that] .
  from a b c d e f show ?thesis by blast
qed

lemma canonicalize_members_example:
  "keyPermuted (JObj [(JS ''b'', JArr [JObj [(JS ''q'', JNum (Finite 1 0)), (JS ''p'', JNull)]]), (JS ''a'', JNum (Finite 2 0))])
               (JObj [(JS ''a'', JNum (Finite 2 0)), (JS ''b'', JArr [JObj [(JS ''p'', JNull), (JS ''q'', JNum (Finite 1 0))]])])
   \<and> canonicalize (JObj [(JS ''b'', JArr [JObj [(JS ''q'', JNum (Finite 1 0)), (JS ''p'', JNull)]]), (JS ''a'', JNum (Finite 2 0))])
     = canonicalize (JObj [(JS ''a'', JNum (Finite 2 0)), (JS ''b'', JArr [JObj [(JS ''p'', JNull), (JS ''q'', JNum (Finite 1 0))]])])"
proof -
  have n: "keyPermuted (JObj [(JS ''q'', JNum (Finite 1 0)), (JS ''p'', JNull)])
                       (JObj [(JS ''p'', JNull), (JS ''q'', JNum (Finite 1 0))])"
    by (rule keyPermuted.objects) (auto simp: JS_def intro: keyPermuted.same)
  have k: "keyPermuted (JObj [(JS ''b'', JArr [JObj [(JS ''q'', JNum (Finite 1 0)), (JS ''p'', JNull)]]), (JS ''a'', JNum (Finite 2 0))])
               (JObj [(JS ''a'', JNum (Finite 2 0)), (JS ''b'', JArr [JObj [(JS ''p'', JNull), (JS ''q'', JNum (Finite 1 0))]])])"
    by (rule keyPermuted.objects)
      (auto simp: JS_def intro: keyPermuted.same keyPermuted.arrays n [unfolded JS_def, simplified])
  with canonicalize_members [of "JObj [(JS ''b'', JArr [JObj [(JS ''q'', JNum (Finite 1 0)), (JS ''p'', JNull)]]), (JS ''a'', JNum (Finite 2 0))]"
      "JObj [(JS ''a'', JNum (Finite 2 0)), (JS ''b'', JArr [JObj [(JS ''p'', JNull), (JS ''q'', JNum (Finite 1 0))]])]" "[]"]
  show ?thesis by blast
qed

text \<open>
  Claim C8, on the code. \<open>replacer\<close> sorts the keys and assigns them in that order to a
  new object, but an object does not enumerate its keys in the order of their assignment:
  those that are array indices come first, in numeric order. For the record with \<open>10\<close>
  mapped to 1 and \<open>9\<close> mapped to 2 the text puts \<open>9\<close> first, although \<open>10\<close> sorts before
  \<open>9\<close>. The same assignment creates no property for the key \<open>__proto__\<close>: of the record
  with \<open>__proto__\<close> mapped to 1 and \<open>a\<close> mapped to 2 only \<open>a\<close> is written, although the
  value of \<open>__proto__\<close> is not absent.
\<close>

theorem canonicalize_index_keys_first:
  "canonicalize (JObj [(JS ''10'', JNum (Finite 1 0)), (JS ''9'', JNum (Finite 2 0))])
     = Some (JS ''{'' @ QuoteJSONString (JS ''9'') @ JS '':2,'' @ QuoteJSONString (JS ''10'') @ JS '':1}'')
   \<and> map fst (emittedMembers [(JS ''10'', JNum (Finite 1 0)), (JS ''9'', JNum (Finite 2 0))])
     = [JS ''9'', JS ''10'']
   \<and> JS ''10'' < JS ''9'' \<and> \<not> sorted [JS ''9'', JS ''10'']
   \<and> canonicalize (JObj [(JS ''__proto__'', JNum (Finite 1 0)), (JS ''a'', JNum (Finite 2 0))])
     = Some (JS ''{'' @ QuoteJSONString (JS ''a'') @ JS '':2}'')
   \<and> getProperty [(JS ''__proto__'', JNum (Finite 1 0)), (JS ''a'', JNum (Finite 2 0))] (JS ''__proto__'')
     = JNum (Finite 1 0)"
  by (simp add: canonicalize_def serialize_JObj emittedMembers_def members_def replacer_def JS_def
      assignProperty_def setProperty_def precedes_def isArrayIndex_def isDigit_def indexValue.simps
      serializeJSONProperty.simps [of "JNum n" for n] hexDigit_def)

subsection \<open>Anchor and visitor ID\<close>

text \<open>
  Claim C1, on the code. For every signal bag \<open>computeVisitorId\<close> returns, and the visitor
  ID is the whole digest of the canonical anchor: sixteen lowercase hexadecimal digits, not
  twenty-two, since \<open>slice(0, 22)\<close> of a sixteen-digit string is that string.
\<close>

theorem computeVisitorId_sixteen:
  "\<exists>r canon. computeVisitorId toLowerCase signals = Some r
     \<and> computeAnchor toLowerCase signals = Some (anchor r)
     \<and> canonicalize (anchor r) = Some canon \<and> visitorId r = hashString canon
     \<and> length (visitorId r) = 16 \<and> length (visitorId r) \<noteq> 22 \<and> list_all isLowerHex (visitorId r)"
proof -
  from computeVisitorId_defined [of toLowerCase signals] obtain qs canon
    where "computeAnchor toLowerCase signals = Some (JObj qs)" and "canonicalize (JObj qs) = Some canon"
      and "computeVisitorId toLowerCase signals = Some \<lparr>anchor = JObj qs, visitorId = hashString canon\<rparr>"
    by blast
  then show ?thesis
    by (intro exI [of _ "\<lparr>anchor = JObj qs, visitorId = hashString canon\<rparr>"] exI [of _ canon])
      (simp add: hashString_length hashString_lower)
qed

text \<open>
  Claim C7. Two signal bags that differ only in the user agent and in properties outside
  the interface (platform, device pixel ratio, viewport) have the same anchor payload, with
  one canonical text, and the same visitor ID.
\<close>

theorem anchor_ignores_volatile_fields:
  "\<exists>payload canon r r'.
      computeAnchor toLowerCase b = Some payload
    \<and> computeAnchor toLowerCase (b\<lparr>userAgent := ua, otherProperties := other\<rparr>) = Some payload
    \<and> canonicalize payload = Some canon
    \<and> computeVisitorId toLowerCase b = Some r
    \<and> computeVisitorId toLowerCase (b\<lparr>userAgent := ua, otherProperties := other\<rparr>) = Some r'
    \<and> visitorId r' = visitorId r"
proof -
  have a: "anchorObject toLowerCase (b\<lparr>userAgent := ua, otherProperties := other\<rparr>)
      = anchorObject toLowerCase b"
    by (simp add: anchorObject_def)
  then have c: "computeAnchor toLowerCase (b\<lparr>userAgent := ua, otherProperties := other\<rparr>)
      = computeAnchor toLowerCase b"
    by (simp add: computeAnchor_def)
  then have v: "computeVisitorId toLowerCase (b\<lparr>userAgent := ua, otherProperties := other\<rparr>)
      = computeVisitorId toLowerCase b"
    by (simp add: computeVisitorId_def)
  from computeVisitorId_defined [of toLowerCase b] show ?thesis
    unfolding c v by auto
qed

text \<open>
  Claim C10, as the code has it. When \<open>audioFingerprint\<close> is a finite number, so for each
  of the sentinel codes -1, -2, -3 and -4, the \<open>audio\<close> field of the payload
  \<open>computeAnchor\<close> returns is that number; when it is \<open>NaN\<close> or infinite the field is
  \<open>null\<close>. Bags that differ only in the sentinel they carry have different payloads, and a
  bag with a number, finite or not, differs from the same bag with no audio signal or with
  the lazy function.
\<close>

theorem computeAnchor_audio_number:
  "(audioFingerprint b = Some (AudioNumber n) \<longrightarrow>
      (\<exists>qs. computeAnchor toLowerCase b = Some (JObj qs)
         \<and> getProperty qs (JS ''audio'') = (if isFinite n then JNum n else JNull)))
   \<and> (\<exists>qs. computeAnchor toLowerCase (b\<lparr>audioFingerprint := Some (AudioNumber (Finite (sentinel s) 0))\<rparr>)
          = Some (JObj qs) \<and> getProperty qs (JS ''audio'') = JNum (Finite (sentinel s) 0))
   \<and> (s \<noteq> s' \<longrightarrow>
        computeAnchor toLowerCase (b\<lparr>audioFingerprint := Some (AudioNumber (Finite (sentinel s) 0))\<rparr>)
      \<noteq> computeAnchor toLowerCase (b\<lparr>audioFingerprint := Some (AudioNumber (Finite (sentinel s') 0))\<rparr>))
   \<and> computeAnchor toLowerCase (b\<lparr>audioFingerprint := Some (AudioNumber n)\<rparr>)
      \<noteq> computeAnchor toLowerCase (b\<lparr>audioFingerprint := None\<rparr>)
   \<and> computeAnchor toLowerCase (b\<lparr>audioFingerprint := Some (AudioNumber n)\<rparr>)
      \<noteq> computeAnchor toLowerCase (b\<lparr>audioFingerprint := Some AudioThunk\<rparr>)"
proof -
  have num: "audioFingerprint b = Some (AudioNumber n) \<Longrightarrow>
      \<exists>qs. computeAnchor toLowerCase b = Some (JObj qs)
         \<and> getProperty qs (JS ''audio'') = (if isFinite n then JNum n else JNull)"
    using computeAnchor_defined [of toLowerCase b] by auto
  have audio: "\<exists>qs. computeAnchor toLowerCase (b\<lparr>audioFingerprint := a\<rparr>) = Some (JObj qs)
      \<and> getProperty qs (JS ''audio'') =
         (case a of Some (AudioNumber n) \<Rightarrow> if isFinite n then JNum n else JNull | _ \<Rightarrow> JUndefined)" for a
    using computeAnchor_defined [of toLowerCase "b\<lparr>audioFingerprint := a\<rparr>"] by simp
  have sen: "\<exists>qs. computeAnchor toLowerCase (b\<lparr>audioFingerprint := Some (AudioNumber (Finite (sentinel s) 0))\<rparr>)
          = Some (JObj qs) \<and> getProperty qs (JS ''audio'') = JNum (Finite (sentinel s) 0)" for s
    using audio [of "Some (AudioNumber (Finite (sentinel s) 0))"] by simp
  have inj: "sentinel s = sentinel s' \<Longrightarrow> s = s'"
    by (cases s; cases s') simp_all
  have diff: "s \<noteq> s' \<Longrightarrow>
        computeAnchor toLowerCase (b\<lparr>audioFingerprint := Some (AudioNumber (Finite (sentinel s) 0))\<rparr>)
      \<noteq> computeAnchor toLowerCase (b\<lparr>audioFingerprint := Some (AudioNumber (Finite (sentinel s') 0))\<rparr>)"
    using sen [of s] sen [of s'] inj by auto
  have absent: "computeAnchor toLowerCase (b\<lparr>audioFingerprint := Some (AudioNumber n)\<rparr>)
      \<noteq> computeAnchor toLowerCase (b\<lparr>audioFingerprint := None\<rparr>)"
    using audio [of "Some (AudioNumber n)"] audio [of None] by (auto split: if_splits)
  have thunk: "computeAnchor toLowerCase (b\<lparr>audioFingerprint := Some (AudioNumber n)\<rparr>)
      \<noteq> computeAnchor toLowerCase (b\<lparr>audioFingerprint := Some AudioThunk\<rparr>)"
    using audio [of "Some (AudioNumber n)"] audio [of "Some AudioThunk"] by (auto split: if_splits)
  from num sen diff absent thunk show ?thesis by blast
qed

theorem computeAnchor_audio_number_witness:
  "audioFingerprint (emptySignals\<lparr>audioFingerprint := Some (AudioNumber (Finite (- 2) 0))\<rparr>)
     = Some (AudioNumber (Finite (- 2) 0))
   \<and> isFinite (Finite (- 2) 0) \<and> NotSupported \<noteq> Timeout
   \<and> (\<exists>qs. computeAnchor (\<lambda>s. s) (emptySignals\<lparr>audioFingerprint := Some (AudioNumber (Finite (- 2) 0))\<rparr>)
           = Some (JObj qs) \<and> getProperty qs (JS ''audio'') = JNum (Finite (- 2) 0))
   \<and> computeAnchor (\<lambda>s. s) (emptySignals\<lparr>audioFingerprint := Some (AudioNumber (Finite (- 2) 0))\<rparr>)
     \<noteq> computeAnchor (\<lambda>s. s) (emptySignals\<lparr>audioFingerprint := Some (AudioNumber (Finite (- 3) 0))\<rparr>)"
  using computeAnchor_audio_number [where b = "emptySignals\<lparr>audioFingerprint := Some (AudioNumber (Finite (- 2) 0))\<rparr>"
      and n = "Finite (- 2) 0" and toLowerCase = "\<lambda>s. s" and s = NotSupported and s' = Timeout]
  by (simp add: emptySignals_def)

text \<open>
  Claim C10 as stated, for every number, fails at \<open>NaN\<close>: \<open>JSON.stringify\<close> writes \<open>null\<close>
  for a number that is not finite, and the payload that \<open>computeAnchor\<close> returns for the
  bag whose only signal is the audio value \<open>NaN\<close> has \<open>null\<close> in its \<open>audio\<close> field.
\<close>

theorem computeAnchor_audio_nan:
  "computeAnchor id (emptySignals\<lparr>audioFingerprint := Some (AudioNumber NaN)\<rparr>)
     = Some (JObj [(JS ''audio'', JNull), (JS ''webgl'', JObj [])])
   \<and> getProperty [(JS ''audio'', JNull), (JS ''webgl'', JObj [])] (JS ''audio'') \<noteq> JNum NaN"
  by (simp add: computeAnchor_def anchorObject_def emptySignals_def optional_def orElse_def normalizeString_def
      parseStringified.simps [of "JObj ps" for ps] parseStringified.simps [of "JNum n" for n]
      parseStringified.simps [of JUndefined]
      replacer_def assignProperty_def setProperty_def precedes_def isArrayIndex_def isDigit_def JS_def)

section \<open>Properties of the audio source\<close>

declare bitLength.simps [simp del] oddMantissa.simps [simp del]

lemma bitLength_zero: "bitLength 0 = 0"
  by (simp add: bitLength.simps [of 0])

lemma bitLength_pos: "n \<noteq> 0 \<Longrightarrow> bitLength n = Suc (bitLength (n div 2))"
  by (simp add: bitLength.simps [of n])

lemma bitLength_bound: "n < 2 ^ bitLength n"
proof (induction n rule: bitLength.induct)
  case (1 n)
  show ?case
  proof (cases "n = 0")
    case True
    then show ?thesis by (simp add: bitLength_zero)
  next
    case False
    with 1 have "n div 2 < 2 ^ bitLength (n div 2)" by simp
    then have "n < 2 * 2 ^ bitLength (n div 2)" by linarith
    with False show ?thesis by (simp add: bitLength_pos)
  qed
qed

lemma bitLength_le: "n < 2 ^ k \<Longrightarrow> bitLength n \<le> k"
proof (induction k arbitrary: n)
  case 0
  then show ?case by (simp add: bitLength_zero)
next
  case (Suc k)
  show ?case
  proof (cases "n = 0")
    case True
    then show ?thesis by (simp add: bitLength_zero)
  next
    case False
    from Suc.prems have "n div 2 < 2 ^ k" by simp
    from Suc.IH [OF this] False show ?thesis by (simp add: bitLength_pos)
  qed
qed

lemma oddMantissa_zero: "oddMantissa 0 e = (0, 0)"
  by (simp add: oddMantissa.simps [of 0])

lemma oddMantissa_odd:
  "m \<noteq> 0 \<Longrightarrow> oddMantissa m e = (m', e') \<Longrightarrow>
     odd m' \<and> m' \<le> m \<and> e \<le> e' \<and> int (bitLength m') + e' = int (bitLength m) + e"
proof (induction m e rule: oddMantissa.induct)
  case (1 m e)
  show ?case
  proof (cases "even m")
    case True
    with 1(2) have h: "m div 2 \<noteq> 0" by auto
    from 1(2,3) True have "oddMantissa (m div 2) (e + 1) = (m', e')" by (simp add: oddMantissa.simps [of m])
    from 1(1) [OF 1(2) True h this]
    have "odd m' \<and> m' \<le> m div 2 \<and> e + 1 \<le> e' \<and> int (bitLength m') + e' = int (bitLength (m div 2)) + (e + 1)" .
    moreover from 1(2) have "bitLength m = Suc (bitLength (m div 2))" by (rule bitLength_pos)
    ultimately show ?thesis by auto
  next
    case False
    with 1(2,3) show ?thesis by (simp add: oddMantissa.simps [of m])
  qed
qed

lemma rounded_quotient:
  fixes m :: nat and e ulp :: int
  assumes "e + int (bitLength m) - 53 \<le> ulp"
  shows "(if ulp \<le> e then m * 2 ^ nat (e - ulp)
          else let d = 2 ^ nat (ulp - e); q = m div d; r = m mod d
               in if d < 2 * r \<or> (2 * r = d \<and> odd q) then q + 1 else q) \<le> 2 ^ 53"
proof (cases "ulp \<le> e")
  case True
  have "m * 2 ^ nat (e - ulp) < 2 ^ bitLength m * 2 ^ nat (e - ulp)"
    using bitLength_bound [of m] by simp
  also have "\<dots> = 2 ^ (bitLength m + nat (e - ulp))" by (simp add: power_add)
  also have "\<dots> \<le> 2 ^ 53" using assms True by (intro power_increasing) auto
  finally show ?thesis using True by simp
next
  case False
  let ?k = "nat (ulp - e)"
  from assms False have "bitLength m \<le> 53 + ?k" by auto
  then have "(2::nat) ^ bitLength m \<le> 2 ^ (53 + ?k)" by (intro power_increasing) auto
  with bitLength_bound [of m] have "m < 2 ^ 53 * 2 ^ ?k" by (simp add: power_add)
  then have "m div 2 ^ ?k < 2 ^ 53" by (simp add: less_mult_imp_div_less)
  with False show ?thesis by (simp add: Let_def)
qed

lemma roundTiesToEven_cases:
  "roundTiesToEven s m e = Infinite s \<or> (\<exists>m' e'. roundTiesToEven s m e = Dyadic s m' e')"
  by (simp add: roundTiesToEven_def Let_def split: prod.splits)

lemma roundTiesToEven_isDouble: "isDouble (roundTiesToEven s m e)"
proof -
  define ulp where "ulp = max (e + int (bitLength m) - 53) (- 1074)"
  define q where "q = (if ulp \<le> e then m * 2 ^ nat (e - ulp)
          else let d = 2 ^ nat (ulp - e); q = m div d; r = m mod d
               in if d < 2 * r \<or> (2 * r = d \<and> odd q) then q + 1 else q)"
  have r: "roundTiesToEven s m e = (if 1024 < int (bitLength q) + ulp then Infinite s
        else case oddMantissa q ulp of (m', e') \<Rightarrow> Dyadic s m' e')"
    unfolding roundTiesToEven_def ulp_def q_def Let_def by simp
  have u: "e + int (bitLength m) - 53 \<le> ulp" and l: "- 1074 \<le> ulp" by (simp_all add: ulp_def)
  from rounded_quotient [OF u] have b: "q \<le> 2 ^ 53" by (simp add: q_def)
  show ?thesis
  proof (cases "1024 < int (bitLength q) + ulp")
    case True
    with r show ?thesis by simp
  next
    case False
    obtain m' e' where n: "oddMantissa q ulp = (m', e')" by (cases "oddMantissa q ulp")
    show ?thesis
    proof (cases "q = 0")
      case True
      with n r False show ?thesis by (simp add: oddMantissa_zero)
    next
      case nz: False
      from oddMantissa_odd [OF nz n] have o: "odd m'" and le: "m' \<le> q" and ex: "ulp \<le> e'"
        and bl: "int (bitLength m') + e' = int (bitLength q) + ulp" by simp_all
      from o have "m' \<noteq> 2 ^ 53" by auto
      with le b have "m' < 2 ^ 53" by simp
      with o ex l bl False n r show ?thesis by simp
    qed
  qed
qed

lemma Number_add_isDouble: "isDouble x \<Longrightarrow> isDouble y \<Longrightarrow> isDouble (Number_add x y)"
  by (cases x; cases y) (simp_all add: Let_def roundTiesToEven_isDouble)

lemma Math_abs_isDouble: "isDouble x \<Longrightarrow> isDouble (Math_abs x)"
  by (cases x) simp_all

lemma Number_add_NaN:
  "Number_add x y = NotANumber \<longleftrightarrow>
     x = NotANumber \<or> y = NotANumber \<or> (\<exists>s. x = Infinite s \<and> y = Infinite (\<not> s))"
proof (cases x; cases y)
  fix s m e t n f
  assume "x = Dyadic s m e" "y = Dyadic t n f"
  then show ?thesis
    using roundTiesToEven_cases [of "signedMantissa s (m * 2 ^ nat (e - min e f)) + signedMantissa t (n * 2 ^ nat (f - min e f)) < 0"
        "nat \<bar>signedMantissa s (m * 2 ^ nat (e - min e f)) + signedMantissa t (n * 2 ^ nat (f - min e f))\<bar>" "min e f"]
    by (auto simp: Let_def)
qed auto

lemma Number_add_plusSigned: "plusSigned x \<Longrightarrow> plusSigned y \<Longrightarrow> plusSigned (Number_add x y)"
proof -
  assume "plusSigned x" "plusSigned y"
  then consider "x = Infinite False \<or> y = Infinite False"
    | m e n f where "x = Dyadic False m e" "y = Dyadic False n f"
    by (auto simp: plusSigned_def)
  then show ?thesis
  proof cases
    case 1
    with \<open>plusSigned x\<close> \<open>plusSigned y\<close> show ?thesis by (auto simp: plusSigned_def)
  next
    case 2
    let ?i = "signedMantissa False (m * 2 ^ nat (e - min e f)) + signedMantissa False (n * 2 ^ nat (f - min e f))"
    have "0 \<le> ?i" unfolding signedMantissa_def by (intro add_nonneg_nonneg) simp_all
    then have "\<not> ?i < 0" by simp
    with roundTiesToEven_cases [of "?i < 0" "nat \<bar>?i\<bar>" "min e f"] 2 show ?thesis
      by (auto simp: plusSigned_def Let_def)
  qed
qed

lemma Math_abs_plusSigned: "x \<noteq> NotANumber \<Longrightarrow> plusSigned (Math_abs x)"
  by (cases x) (simp_all add: plusSigned_def)

lemma fold_plusSigned:
  "plusSigned acc \<Longrightarrow> NotANumber \<notin> set signal \<Longrightarrow>
     plusSigned (fold (\<lambda>x hash. Number_add hash (Math_abs x)) signal acc)"
proof (induction signal arbitrary: acc)
  case Nil
  then show ?case by simp
next
  case (Cons x signal)
  from Cons.prems have "x \<noteq> NotANumber" and n: "NotANumber \<notin> set signal" by auto
  from Number_add_plusSigned [OF Cons.prems(1) Math_abs_plusSigned [OF this(1)]]
  have "plusSigned (Number_add acc (Math_abs x))" .
  from Cons.IH [OF this n] show ?case by simp
qed

lemma fold_NaN: "fold (\<lambda>x hash. Number_add hash (Math_abs x)) signal NotANumber = NotANumber"
  by (induction signal) simp_all

lemma fold_NaN_sample:
  "NotANumber \<in> set signal \<Longrightarrow> fold (\<lambda>x hash. Number_add hash (Math_abs x)) signal acc = NotANumber"
proof (induction signal arbitrary: acc)
  case Nil
  then show ?case by simp
next
  case (Cons x signal)
  show ?case
  proof (cases "x = NotANumber")
    case True
    then have "Number_add acc (Math_abs x) = NotANumber" by (cases acc) simp_all
    then show ?thesis by (simp add: fold_NaN)
  next
    case False
    with Cons show ?thesis by simp
  qed
qed

lemma fold_isDouble:
  "isDouble acc \<Longrightarrow> list_all isDouble signal \<Longrightarrow>
     isDouble (fold (\<lambda>x hash. Number_add hash (Math_abs x)) signal acc)"
  by (induction signal arbitrary: acc) (simp_all add: Number_add_isDouble Math_abs_isDouble)

lemma plusSigned_nonneg: "plusSigned x \<Longrightarrow> isNonNegative x"
  by (auto simp: plusSigned_def)

lemma getHash_NaN: "getHash signal = NotANumber \<longleftrightarrow> NotANumber \<in> set signal"
proof
  assume "getHash signal = NotANumber"
  show "NotANumber \<in> set signal"
  proof (rule ccontr)
    assume "NotANumber \<notin> set signal"
    from fold_plusSigned [OF _ this, of "Dyadic False 0 0"] \<open>getHash signal = NotANumber\<close>
    show False by (simp add: getHash_def plusSigned_def)
  qed
next
  assume "NotANumber \<in> set signal"
  then show "getHash signal = NotANumber" by (simp add: getHash_def fold_NaN_sample)
qed

lemma getHash_nonneg: "NotANumber \<notin> set signal \<Longrightarrow> isNonNegative (getHash signal)"
  using fold_plusSigned [of "Dyadic False 0 0" signal] by (simp add: getHash_def plusSigned_def plusSigned_nonneg)

lemma Number_add_double: "isDouble (Number_add x y)"
  by (cases x; cases y) (simp_all add: Let_def roundTiesToEven_isDouble)

lemma getHash_isDouble: "isDouble (getHash signal)"
proof (induction signal rule: rev_induct)
  case Nil
  then show ?case by (simp add: getHash_def)
next
  case (snoc x signal)
  then show ?case by (simp add: getHash_def Number_add_double)
qed

lemma fold_replicate_fixed: "f x h = h \<Longrightarrow> fold f (replicate n x) h = h"
  by (induction n) simp_all

lemma bitLength_shift: "m \<noteq> 0 \<Longrightarrow> bitLength (m * 2 ^ k) = bitLength m + k"
proof (induction k)
  case 0
  then show ?case by simp
next
  case (Suc k)
  from Suc.prems have "m * 2 ^ Suc k \<noteq> 0" by simp
  from bitLength_pos [OF this] have "bitLength (m * 2 ^ Suc k) = Suc (bitLength (m * 2 ^ k))" by simp
  with Suc show ?case by simp
qed

lemma oddMantissa_shift: "odd m \<Longrightarrow> oddMantissa (m * 2 ^ k) u = (m, u + int k)"
proof (induction k arbitrary: u)
  case 0
  then have "m \<noteq> 0" by (auto elim: oddE)
  with 0 show ?case by (simp add: oddMantissa.simps [of m])
next
  case (Suc k)
  from Suc.prems have nz: "m * 2 ^ Suc k \<noteq> 0" by (auto elim: oddE)
  have "oddMantissa (m * 2 ^ Suc k) u = oddMantissa (m * 2 ^ k) (u + 1)"
    using nz by (subst oddMantissa.simps) simp
  with Suc.IH [OF Suc.prems, of "u + 1"] show ?case by simp
qed

lemma roundTiesToEven_exact:
  assumes "odd m" and "m < 2 ^ 53" and "- 1074 \<le> e" and "e + int (bitLength m) \<le> 1024"
  shows "roundTiesToEven s (m * 2 ^ k) (e - int k) = Dyadic s m e"
proof -
  from assms(1) have nz: "m \<noteq> 0" by (auto elim: oddE)
  define ulp where "ulp = max (e + int (bitLength m) - 53) (- 1074)"
  from assms(2) have "bitLength m \<le> 53" by (rule bitLength_le)
  with assms(3) have le: "ulp \<le> e" by (simp add: ulp_def)
  define j where "j = nat (e - ulp)"
  from le have j: "int j = e - ulp" by (simp add: j_def)
  have u: "max (e - int k + int (bitLength (m * 2 ^ k)) - 53) (- 1074) = ulp"
    by (simp add: bitLength_shift [OF nz] ulp_def)
  have q: "(if ulp \<le> e - int k then m * 2 ^ k * 2 ^ nat (e - int k - ulp)
          else let d = 2 ^ nat (ulp - (e - int k)); q = m * 2 ^ k div d; r = m * 2 ^ k mod d
               in if d < 2 * r \<or> (2 * r = d \<and> odd q) then q + 1 else q) = m * 2 ^ j"
  proof (cases "ulp \<le> e - int k")
    case True
    then have "k + nat (e - int k - ulp) = j" using j by simp
    then have "m * 2 ^ k * 2 ^ nat (e - int k - ulp) = m * 2 ^ j"
      by (simp add: power_add [symmetric] mult.assoc)
    with True show ?thesis by simp
  next
    case False
    define i where "i = nat (ulp - (e - int k))"
    from False j have k: "k = j + i" by (simp add: i_def)
    have e: "m * 2 ^ k = m * 2 ^ j * 2 ^ i" by (simp only: k power_add mult.assoc)
    have "m * 2 ^ k div 2 ^ i = m * 2 ^ j" and "m * 2 ^ k mod 2 ^ i = 0"
      unfolding e by simp_all
    with False show ?thesis by (simp add: Let_def i_def [symmetric])
  qed
  have b: "int (bitLength (m * 2 ^ j)) + ulp = int (bitLength m) + e"
    using j by (simp add: bitLength_shift [OF nz])
  have o: "oddMantissa (m * 2 ^ j) ulp = (m, e)"
    using oddMantissa_shift [OF assms(1), of j ulp] j by simp
  have "roundTiesToEven s (m * 2 ^ k) (e - int k) =
      (let q = (if ulp \<le> e - int k then m * 2 ^ k * 2 ^ nat (e - int k - ulp)
          else let d = 2 ^ nat (ulp - (e - int k)); q = m * 2 ^ k div d; r = m * 2 ^ k mod d
               in if d < 2 * r \<or> (2 * r = d \<and> odd q) then q + 1 else q)
       in if 1024 < int (bitLength q) + ulp then Infinite s
          else case oddMantissa q ulp of (m', e') \<Rightarrow> Dyadic s m' e')"
    by (simp add: roundTiesToEven_def u Let_def)
  also have "\<dots> = (if 1024 < int (bitLength (m * 2 ^ j)) + ulp then Infinite s
          else case oddMantissa (m * 2 ^ j) ulp of (m', e') \<Rightarrow> Dyadic s m' e')"
    unfolding q by (simp only: Let_def)
  also have "\<dots> = Dyadic s m e" using b o assms(4) by simp
  finally show ?thesis .
qed

lemma roundTiesToEven_double:
  "isDouble (Dyadic s m e) \<Longrightarrow> m \<noteq> 0 \<Longrightarrow> roundTiesToEven s (m * 2 ^ k) (e - int k) = Dyadic s m e"
  using roundTiesToEven_exact [of m e s k] by simp

lemma signedMantissa_abs: "nat \<bar>signedMantissa s n\<bar> = n"
  by (simp add: signedMantissa_def)

lemma Number_add_zero:
  assumes "isDouble (Dyadic s m e)" and "m \<noteq> 0"
  shows "Number_add (Dyadic False 0 0) (Dyadic s m e) = Dyadic s m e"
proof -
  define k where "k = nat (e - min 0 e)"
  have g: "min 0 e = e - int k" by (simp add: k_def)
  have i: "signedMantissa False (0 * 2 ^ nat (0 - min 0 e)) + signedMantissa s (m * 2 ^ nat (e - min 0 e))
      = signedMantissa s (m * 2 ^ k)"
    by (simp add: signedMantissa_def k_def)
  from assms(2) have nz: "signedMantissa s (m * 2 ^ k) \<noteq> 0" by (simp add: signedMantissa_def)
  from assms(2) have sg: "(signedMantissa s (m * 2 ^ k) < 0) = s"
    by (auto simp: signedMantissa_def mult_less_0_iff)
  have ab: "nat \<bar>signedMantissa s (m * 2 ^ k)\<bar> = m * 2 ^ k" by (rule signedMantissa_abs)
  show ?thesis
    unfolding Number_add.simps Let_def i using nz
    by (simp add: sg ab g roundTiesToEven_double [OF assms])
qed

lemma getHash_snoc: "getHash (signal @ [x]) = Number_add (getHash signal) (Math_abs x)"
  by (simp add: getHash_def)

lemma getHash_zeros: "getHash (replicate n (Dyadic False 0 0)) = Dyadic False 0 0"
  unfolding getHash_def by (rule fold_replicate_fixed) (simp add: signedMantissa_def)

lemma bitLength_one: "bitLength (Suc 0) = 1"
  using bitLength_pos [of "Suc 0"] by (simp add: bitLength_zero)

lemma add_tiny: "Number_add (Dyadic False 1 0) (Dyadic False 1 (- 60)) = Dyadic False 1 0"
  by (simp add: signedMantissa_def roundTiesToEven_def bitLength.simps oddMantissa.simps Let_def)

lemma drop_nths: "n \<le> length xs \<Longrightarrow> drop n xs = map (\<lambda>i. xs ! i) [n..<length xs]"
  by (rule nth_equalityI) simp_all

text \<open>
  Claim C6, as the code has it. When the render promise is fulfilled with a buffer, the
  fingerprint promise is fulfilled with what \<open>getHash\<close> accumulates over the samples of
  channel 0 from index 4500 on, for a buffer of 5000 samples those of the indices 4500 to
  4999 in this order: the absolute values are added one by one, from 0, each sum rounded to
  a double. The result is a double; it is \<open>NaN\<close> exactly when one of these samples is
  \<open>NaN\<close>, and otherwise it is not negative. It is a function of the buffer.
\<close>

theorem fingerprint_of_rendered_buffer:
  "fingerprintPromise (Fulfilled buffer)
     = Fulfilled (fold (\<lambda>x hash. Number_add hash (Math_abs x)) (drop 4500 buffer) (Dyadic False 0 0))
   \<and> (length buffer = 5000 \<longrightarrow>
        fingerprintPromise (Fulfilled buffer)
          = Fulfilled (fold (\<lambda>i hash. Number_add hash (Math_abs (buffer ! i))) [4500..<5000] (Dyadic False 0 0)))
   \<and> (\<exists>h. fingerprintPromise (Fulfilled buffer) = Fulfilled h \<and> isDouble h
          \<and> (h = NotANumber \<longleftrightarrow> NotANumber \<in> set (drop 4500 buffer))
          \<and> (NotANumber \<notin> set (drop 4500 buffer) \<longrightarrow> isNonNegative h))"
proof -
  have f: "fingerprintPromise (Fulfilled buffer) = Fulfilled (getHash (drop 4500 buffer))"
    by (simp add: fingerprintPromise_def subarray_def hashFromIndex_def)
  have a: "fingerprintPromise (Fulfilled buffer)
     = Fulfilled (fold (\<lambda>x hash. Number_add hash (Math_abs x)) (drop 4500 buffer) (Dyadic False 0 0))"
    by (simp add: f getHash_def)
  have b: "fingerprintPromise (Fulfilled buffer)
          = Fulfilled (fold (\<lambda>i hash. Number_add hash (Math_abs (buffer ! i))) [4500..<5000] (Dyadic False 0 0))"
    if "length buffer = 5000"
  proof -
    from that drop_nths [of 4500 buffer]
    have "drop 4500 buffer = map (\<lambda>i. buffer ! i) [4500..<5000]" by simp
    then show ?thesis by (simp only: a fold_map comp_def)
  qed
  have c: "isDouble (getHash (drop 4500 buffer))
       \<and> (getHash (drop 4500 buffer) = NotANumber \<longleftrightarrow> NotANumber \<in> set (drop 4500 buffer))
       \<and> (NotANumber \<notin> set (drop 4500 buffer) \<longrightarrow> isNonNegative (getHash (drop 4500 buffer)))"
    using getHash_isDouble getHash_NaN getHash_nonneg by blast
  from a b c f show ?thesis by blast
qed

lemma half_hash:
  "getHash (replicate 499 (Dyadic False 0 0) @ [Dyadic True 1 (- 1)]) = Dyadic False 1 (- 1)"
proof -
  have "isDouble (Dyadic False 1 (- 1))" by (simp add: bitLength_one)
  from Number_add_zero [OF this]
  have "Number_add (Dyadic False 0 0) (Dyadic False 1 (- 1)) = Dyadic False 1 (- 1)" by simp
  then show ?thesis by (simp only: getHash_snoc getHash_zeros Math_abs.simps)
qed

theorem fingerprint_of_rendered_buffer_witness:
  "length (replicate 4999 (Dyadic False 0 0) @ [Dyadic True 1 (- 1)]) = 5000
   \<and> NotANumber \<notin> set (drop 4500 (replicate 4999 (Dyadic False 0 0) @ [Dyadic True 1 (- 1)]))
   \<and> fingerprintPromise (Fulfilled (replicate 4999 (Dyadic False 0 0) @ [Dyadic True 1 (- 1)]))
     = Fulfilled (Dyadic False 1 (- 1))
   \<and> fingerprintPromise (Fulfilled (replicate 4999 (Dyadic False 0 0) @ [Dyadic True 1 (- 1)]))
     = Fulfilled (fold (\<lambda>i hash. Number_add hash
         (Math_abs ((replicate 4999 (Dyadic False 0 0) @ [Dyadic True 1 (- 1)]) ! i))) [4500..<5000] (Dyadic False 0 0))
   \<and> isDouble (Dyadic False 1 (- 1)) \<and> isNonNegative (Dyadic False 1 (- 1))"
proof -
  let ?buffer = "replicate 4999 (Dyadic False 0 0) @ [Dyadic True 1 (- 1)]"
  have l: "length ?buffer = 5000" by simp
  have n: "NotANumber \<notin> set (drop 4500 ?buffer)" by simp
  have h: "fingerprintPromise (Fulfilled ?buffer) = Fulfilled (Dyadic False 1 (- 1))"
    using half_hash by (simp add: fingerprintPromise_def subarray_def hashFromIndex_def)
  have d: "isDouble (Dyadic False 1 (- 1))" by (simp add: bitLength.simps)
  have p: "isNonNegative (Dyadic False 1 (- 1))" by simp
  from fingerprint_of_rendered_buffer [of ?buffer] l
  have i: "fingerprintPromise (Fulfilled ?buffer)
     = Fulfilled (fold (\<lambda>i hash. Number_add hash (Math_abs (?buffer ! i))) [4500..<5000] (Dyadic False 0 0))"
    by blast
  show ?thesis by (intro conjI l n h i d p)
qed

text \<open>
  Claim C6 as stated, a non-negative number equal to the sum of the absolute values, fails
  in both parts. For a buffer whose last sample is \<open>NaN\<close> the fingerprint is \<open>NaN\<close>, of which
  \<open>>= 0\<close> is false. For the buffer with 1 at index 4500 and \<open>2 ^ -60\<close> at the 499 indices
  after it the fingerprint is exactly 1, each addition of \<open>2 ^ -60\<close> to 1 rounding to 1,
  while the sum of the absolute values is \<open>1 + 499 / 2 ^ 60\<close>.
\<close>

theorem fingerprint_of_nan_sample:
  "fingerprintPromise (Fulfilled (replicate 4999 (Dyadic False 0 0) @ [NotANumber])) = Fulfilled NotANumber
   \<and> \<not> isNonNegative NotANumber
   \<and> fingerprintPromise (Fulfilled (replicate 4500 (Dyadic False 0 0) @ [Dyadic False 1 0]
         @ replicate 499 (Dyadic False 1 (- 60)))) = Fulfilled (Dyadic False 1 0)
   \<and> valueOf (Dyadic False 1 0) = Some 1 \<and> valueOf (Dyadic False 1 (- 60)) = Some (1 / 2 ^ 60)
   \<and> 1 + 499 * (1 / 2 ^ 60) \<noteq> (1 :: real)"
proof -
  have "getHash (drop 4500 (replicate 4999 (Dyadic False 0 0) @ [NotANumber])) = NotANumber"
    by (simp add: getHash_NaN)
  then have a: "fingerprintPromise (Fulfilled (replicate 4999 (Dyadic False 0 0) @ [NotANumber]))
      = Fulfilled NotANumber"
    by (simp add: fingerprintPromise_def subarray_def hashFromIndex_def)
  have "isDouble (Dyadic False 1 0)" by (simp add: bitLength_one)
  from Number_add_zero [OF this]
  have one: "Number_add (Dyadic False 0 0) (Math_abs (Dyadic False 1 0)) = Dyadic False 1 0" by simp
  have "Number_add (Dyadic False 1 0) (Math_abs (Dyadic False 1 (- 60))) = Dyadic False 1 0"
    using add_tiny by simp
  then have "fold (\<lambda>x hash. Number_add hash (Math_abs x)) (replicate 499 (Dyadic False 1 (- 60))) (Dyadic False 1 0)
      = Dyadic False 1 0"
    by (rule fold_replicate_fixed)
  with one have "getHash ([Dyadic False 1 0] @ replicate 499 (Dyadic False 1 (- 60))) = Dyadic False 1 0"
    by (simp add: getHash_def)
  then have b: "fingerprintPromise (Fulfilled (replicate 4500 (Dyadic False 0 0) @ [Dyadic False 1 0]
         @ replicate 499 (Dyadic False 1 (- 60)))) = Fulfilled (Dyadic False 1 0)"
    by (simp add: fingerprintPromise_def subarray_def hashFromIndex_def)
  from a b show ?thesis by simp
qed

text \<open>
  Claim C4. When the render promise is rejected, the fingerprint promise is fulfilled with
  -3 exactly when the name of the error is \<open>timeout\<close> or \<open>suspended\<close>, as for the two
  errors the job itself makes; with any other error it is rejected with that error.
\<close>

theorem fingerprint_of_rejection:
  "fingerprintPromise (Rejected error) =
     (if errorName error = JS ''timeout'' \<or> errorName error = JS ''suspended''
      then Fulfilled (ofInt (- 3)) else Rejected error)
   \<and> (fingerprintPromise (Rejected error) = Fulfilled (ofInt (- 3))
        \<longleftrightarrow> errorName error = JS ''timeout'' \<or> errorName error = JS ''suspended'')
   \<and> fingerprintPromise (Rejected (makeInnerError InnerTimeout)) = Fulfilled (ofInt (sentinel Timeout))
   \<and> fingerprintPromise (Rejected (makeInnerError InnerSuspended)) = Fulfilled (ofInt (sentinel Timeout))
   \<and> ofInt (- 3) = Dyadic True 3 0"
proof -
  have "ofInt (- 3) = Dyadic True 3 0"
    by (simp add: ofInt_def roundTiesToEven_def bitLength.simps oddMantissa.simps Let_def)
  then show ?thesis by (simp add: fingerprintPromise_def makeInnerError_def)
qed

text \<open>
  Claim C3, as the code has it. Where the page has neither constructor,
  \<open>getUnstableAudioFingerprint\<close> returns -2 before it asks whether the browser suspends
  audio contexts. \<open>getAudioFingerprint\<close> asks its two browser questions first: it returns
  -2 for Safari 17 or newer, -4 for a browser known for anti-fingerprinting, and -2
  otherwise; it never returns -1, -3 or the lazy function there.
\<close>

theorem audio_capability_absent:
  assumes "\<not> hasOfflineAudioContext env" and "\<not> hasWebkitOfflineAudioContext env"
  shows "getUnstableAudioFingerprint env a = Special NotSupported
     \<and> getAudioFingerprint env a =
         (if isSafari17OrNewer env then Special NotSupported
          else if doesBrowserPerformAntifingerprinting env then Special KnownForAntifingerprinting
          else Special NotSupported)
     \<and> (\<forall>job. getAudioFingerprint env a \<noteq> Lazy job)
     \<and> getAudioFingerprint env a \<noteq> Special KnownForSuspending
     \<and> getAudioFingerprint env a \<noteq> Special Timeout"
  using assms by (simp add: getUnstableAudioFingerprint_def getAudioFingerprint_def)

theorem audio_capability_absent_witness:
  "\<not> hasOfflineAudioContext samsungWithoutAudio \<and> \<not> hasWebkitOfflineAudioContext samsungWithoutAudio
   \<and> getUnstableAudioFingerprint samsungWithoutAudio suspendedInForeground = Special NotSupported
   \<and> getAudioFingerprint samsungWithoutAudio suspendedInForeground = Special KnownForAntifingerprinting"
  using audio_capability_absent [of samsungWithoutAudio suspendedInForeground]
  by (simp add: samsungWithoutAudio_def isSafari17OrNewer_def doesBrowserPerformAntifingerprinting_def)

text \<open>
  Claim C3 as stated, -2 before any browser classification applies, fails for
  \<open>getAudioFingerprint\<close> in a Samsung Internet on Chromium 122 or newer without the
  audio constructors: the result is -4.
\<close>

theorem audio_capability_absent_antifingerprinting:
  "\<not> hasOfflineAudioContext samsungWithoutAudio \<and> \<not> hasWebkitOfflineAudioContext samsungWithoutAudio
   \<and> getAudioFingerprint samsungWithoutAudio suspendedInForeground = Special KnownForAntifingerprinting
   \<and> sentinel KnownForAntifingerprinting = - 4
   \<and> getAudioFingerprint samsungWithoutAudio suspendedInForeground \<noteq> Special NotSupported"
  by (simp add: samsungWithoutAudio_def getAudioFingerprint_def isSafari17OrNewer_def
      doesBrowserPerformAntifingerprinting_def)

lemma makeInnerError_distinct: "makeInnerError InnerTimeout \<noteq> makeInnerError InnerSuspended"
  by (simp add: makeInnerError_def JS_def)

lemma tryRender_justified:
  "suspensionJustified job \<Longrightarrow> startRenderingThrows a \<noteq> Some (makeInnerError InnerSuspended) \<Longrightarrow>
     suspensionJustified (tryRender a job)"
  by (auto simp: suspensionJustified_def tryRender_def reject_def setTimeout_def startRunningTimeout_def
      Let_def renderTryMaxCount_def split: option.splits context_state.splits if_splits)

lemma step_justified:
  assumes j: "suspensionJustified job" and t: "thrownBy e \<noteq> Some (makeInnerError InnerSuspended)"
  shows "suspensionJustified (step e job)"
proof (cases e)
  case (TimerFires i a)
  show ?thesis
  proof (cases "i < length (timers job)")
    case True
    let ?job = "job\<lparr>timers := take i (timers job) @ drop (Suc i) (timers job)\<rparr>"
    from j have j': "suspensionJustified ?job" by (simp add: suspensionJustified_def)
    show ?thesis
    proof (cases "snd (timers job ! i)")
      case RetryRender
      with True TimerFires tryRender_justified [OF j'] t show ?thesis by (simp add: step_def Let_def)
    next
      case RejectTimeout
      with True TimerFires j' makeInnerError_distinct show ?thesis
        by (auto simp: step_def Let_def reject_def suspensionJustified_def)
    qed
  next
    case False
    with TimerFires j show ?thesis by (simp add: step_def)
  qed
next
  case (FinalizeCalled now)
  with j show ?thesis
    by (auto simp: step_def finalize_def suspensionJustified_def Let_def startRunningTimeout_def setTimeout_def)
next
  case (RenderingCompletes buffer)
  with j show ?thesis
    by (auto simp: step_def resolve_def suspensionJustified_def)
qed

lemma fold_step_justified:
  "suspensionJustified job \<Longrightarrow> (\<And>e. e \<in> set events \<Longrightarrow> thrownBy e \<noteq> Some (makeInnerError InnerSuspended)) \<Longrightarrow>
     suspensionJustified (fold step events job)"
proof (induction events arbitrary: job)
  case Nil
  then show ?case by simp
next
  case (Cons e events)
  from Cons.prems have "suspensionJustified (step e job)" by (intro step_justified) simp_all
  from Cons.IH [OF this] Cons.prems(2) show ?case by simp
qed

lemma run_justified:
  assumes "startRenderingThrows a \<noteq> Some (makeInnerError InnerSuspended)"
    and "\<And>e. e \<in> set events \<Longrightarrow> thrownBy e \<noteq> Some (makeInnerError InnerSuspended)"
  shows "suspensionJustified (run a events)"
proof -
  have "suspensionJustified newJob"
    by (simp add: suspensionJustified_def newJob_def)
  from tryRender_justified [OF this assms(1)] have "suspensionJustified (startRenderingAudio a)"
    by (simp add: startRenderingAudio_def)
  from fold_step_justified [OF this assms(2)] show ?thesis by (simp add: run_def)
qed

lemma tryRender_isFinalized: "isFinalized (tryRender a job) = isFinalized job"
  by (auto simp: tryRender_def reject_def setTimeout_def startRunningTimeout_def Let_def
      split: option.splits context_state.splits)

lemma step_isFinalized:
  "isFinalized (step e job) \<longleftrightarrow> isFinalized job \<or> (\<exists>now. e = FinalizeCalled now)"
  by (cases e)
    (auto simp: step_def tryRender_isFinalized reject_def resolve_def finalize_def Let_def
       startRunningTimeout_def setTimeout_def split: timer_callback.splits)

lemma fold_step_isFinalized:
  "isFinalized (fold step events job) \<longleftrightarrow> isFinalized job \<or> (\<exists>now. FinalizeCalled now \<in> set events)"
  by (induction events arbitrary: job) (auto simp: step_isFinalized)

lemma run_isFinalized: "isFinalized (run a events) \<longleftrightarrow> (\<exists>now. FinalizeCalled now \<in> set events)"
  by (simp add: run_def fold_step_isFinalized startRenderingAudio_def tryRender_isFinalized newJob_def)








text \<open>
  Claim C2. When \<open>tryRender\<close> finds the context suspended, it adds one to the retry count
  only if the document is not hidden; it rejects the promise with the error of
  \<open>InnerErrorName.Suspended\<close> if \<open>finalize\<close> was called and the count has reached 3, and
  otherwise sets a timer of 500 ms for another \<open>tryRender\<close> and leaves the promise as it
  is. In every run in which \<open>startRendering\<close> does not itself throw that error, a promise
  rejected with it belongs to a job that was finalized, by a call of the fingerprint
  function among the events, and whose count is at least 3: before \<open>finalize\<close> no number
  of suspensions rejects the job.
\<close>

theorem suspension_retry_budget:
  "(startRenderingThrows a = None \<and> contextState a = Suspended \<longrightarrow>
      renderTryCount (tryRender a job)
        = (if documentHidden a then renderTryCount job else renderTryCount job + 1)
    \<and> (if isFinalized job \<and> 3 \<le> renderTryCount (tryRender a job)
        then tryRender a job = reject (makeInnerError InnerSuspended)
               (job\<lparr>renderTryCount := renderTryCount (tryRender a job)\<rparr>)
        else timers (tryRender a job) = timers job @ [(500, RetryRender)]
           \<and> resultPromise (tryRender a job) = resultPromise job))
   \<and> (startRenderingThrows a0 \<noteq> Some (makeInnerError InnerSuspended)
      \<and> (\<forall>e \<in> set events. thrownBy e \<noteq> Some (makeInnerError InnerSuspended))
      \<and> resultPromise (run a0 events) = Rejected (makeInnerError InnerSuspended)
      \<longrightarrow> isFinalized (run a0 events) \<and> 3 \<le> renderTryCount (run a0 events)
          \<and> (\<exists>now. FinalizeCalled now \<in> set events))"
proof -
  have one: "renderTryCount (tryRender a job)
        = (if documentHidden a then renderTryCount job else renderTryCount job + 1)
    \<and> (if isFinalized job \<and> 3 \<le> renderTryCount (tryRender a job)
        then tryRender a job = reject (makeInnerError InnerSuspended)
               (job\<lparr>renderTryCount := renderTryCount (tryRender a job)\<rparr>)
        else timers (tryRender a job) = timers job @ [(500, RetryRender)]
           \<and> resultPromise (tryRender a job) = resultPromise job)"
    if "startRenderingThrows a = None" and "contextState a = Suspended"
    using that
    by (auto simp: tryRender_def reject_def setTimeout_def renderTryMaxCount_def renderRetryDelay_def
        Let_def)
  have all: "isFinalized (run a0 events) \<and> 3 \<le> renderTryCount (run a0 events)
          \<and> (\<exists>now. FinalizeCalled now \<in> set events)"
    if "startRenderingThrows a0 \<noteq> Some (makeInnerError InnerSuspended)"
      and "\<forall>e \<in> set events. thrownBy e \<noteq> Some (makeInnerError InnerSuspended)"
      and "resultPromise (run a0 events) = Rejected (makeInnerError InnerSuspended)"
  proof -
    from that(1,2) have "suspensionJustified (run a0 events)" by (intro run_justified) simp_all
    with that(3) have "isFinalized (run a0 events) \<and> 3 \<le> renderTryCount (run a0 events)"
      by (simp add: suspensionJustified_def renderTryMaxCount_def)
    then show ?thesis using run_isFinalized [of a0 events] by simp
  qed
  from one all show ?thesis by blast
qed

theorem suspension_retry_budget_witness:
  "startRenderingThrows suspendedInForeground = None \<and> contextState suspendedInForeground = Suspended
   \<and> timers (tryRender suspendedInForeground newJob) = [(500, RetryRender)]
   \<and> renderTryCount (tryRender suspendedInForeground newJob) = 1
   \<and> resultPromise (run suspendedInForeground
        [FinalizeCalled 1200, TimerFires 0 suspendedInForeground, TimerFires 0 suspendedInForeground])
      = Rejected (makeInnerError InnerSuspended)
   \<and> isFinalized (run suspendedInForeground
        [FinalizeCalled 1200, TimerFires 0 suspendedInForeground, TimerFires 0 suspendedInForeground])
   \<and> 3 \<le> renderTryCount (run suspendedInForeground
        [FinalizeCalled 1200, TimerFires 0 suspendedInForeground, TimerFires 0 suspendedInForeground])"
proof -
  have r: "resultPromise (run suspendedInForeground
        [FinalizeCalled 1200, TimerFires 0 suspendedInForeground, TimerFires 0 suspendedInForeground])
      = Rejected (makeInnerError InnerSuspended)"
    by (simp add: run_def startRenderingAudio_def step_def tryRender_def finalize_def reject_def
        setTimeout_def suspendedInForeground_def renderTryMaxCount_def renderRetryDelay_def newJob_def)
  from suspension_retry_budget [of suspendedInForeground newJob suspendedInForeground
      "[FinalizeCalled 1200, TimerFires 0 suspendedInForeground, TimerFires 0 suspendedInForeground]"] r
  show ?thesis
    by (simp add: suspendedInForeground_def newJob_def)
qed



end
